theory Spec2Isabelle
  imports Main "HOL-Library.Word"
begin

unbundle bit_operations_syntax

section \<open>Go string primitives used by the runner and the watcher\<close>

text \<open>
  Go strings are byte sequences; they are modelled as \<open>string\<close> (a list of
  characters, one per byte).  The functions below model the standard-library
  calls of package \<open>strings\<close> that the repository uses.
\<close>

text \<open>\<open>strings.HasPrefix(s, p)\<close>.\<close>

fun hasPrefix :: "string \<Rightarrow> string \<Rightarrow> bool" where
  "hasPrefix s [] = True"
| "hasPrefix [] (p # ps) = False"
| "hasPrefix (c # cs) (p # ps) = (c = p \<and> hasPrefix cs ps)"

text \<open>\<open>strings.HasSuffix(s, p)\<close>.\<close>

definition hasSuffix :: "string \<Rightarrow> string \<Rightarrow> bool" where
  "hasSuffix s p = hasPrefix (rev s) (rev p)"

text \<open>\<open>strings.Contains(s, sub)\<close>: \<open>sub\<close> occurs in \<open>s\<close> as a contiguous block.\<close>

fun contains :: "string \<Rightarrow> string \<Rightarrow> bool" where
  "contains [] sub = (sub = [])"
| "contains (c # cs) sub = (hasPrefix (c # cs) sub \<or> contains cs sub)"

text \<open>\<open>strings.TrimPrefix\<close> and \<open>strings.TrimSuffix\<close>.\<close>

definition trimPrefix :: "string \<Rightarrow> string \<Rightarrow> string" where
  "trimPrefix s p = (if hasPrefix s p then drop (length p) s else s)"

definition trimSuffix :: "string \<Rightarrow> string \<Rightarrow> string" where
  "trimSuffix s p = (if hasSuffix s p then take (length s - length p) s else s)"

text \<open>\<open>strings.Join(xs, sep)\<close>.\<close>

fun join :: "string list \<Rightarrow> string \<Rightarrow> string" where
  "join [] sep = []"
| "join [x] sep = x"
| "join (x # y # ys) sep = x @ sep @ join (y # ys) sep"

text \<open>
  \<open>strings.ReplaceAll(s, old, new)\<close>: the non-overlapping occurrences of
  \<open>old\<close> are replaced from left to right.  For an empty \<open>old\<close> Go inserts
  \<open>new\<close> before every character and at the end (per byte here, which is what Go
  does on ASCII text); the repository only ever passes the non-empty constants
  \<open>{path}\<close> and \<open>{event}\<close>.
\<close>

function replaceAll :: "string \<Rightarrow> string \<Rightarrow> string \<Rightarrow> string" where
  "replaceAll s old new =
     (if old = [] then new @ concat (map (\<lambda>c. c # new) s)
      else if s = [] then []
      else if hasPrefix s old then new @ replaceAll (drop (length old) s) old new
      else hd s # replaceAll (tl s) old new)"
  by pat_completeness auto
termination
  by (relation "measure (\<lambda>(s, old, new). length s)") auto

declare replaceAll.simps [simp del]

section \<open>Placeholder substitution (runner.go, \<open>replacePlaceholders\<close>)\<close>

text \<open>
  The loop \<open>for i, part := range cmd\<close> writes slot \<open>i\<close> of a result slice that
  was allocated with \<open>len(cmd)\<close> empty strings.  \<open>replaceLoop\<close> is that loop,
  started at index \<open>i\<close> with the tokens still to be visited.
\<close>

definition substToken :: "string \<Rightarrow> string \<Rightarrow> string \<Rightarrow> string" where
  "substToken part path event =
     replaceAll (replaceAll part ''{path}'' path) ''{event}'' event"

fun replaceLoop :: "nat \<Rightarrow> string list \<Rightarrow> string \<Rightarrow> string \<Rightarrow> string list \<Rightarrow> string list" where
  "replaceLoop i [] path event result = result"
| "replaceLoop i (part # rest) path event result =
     replaceLoop (Suc i) rest path event (result[i := substToken part path event])"

definition replacePlaceholders :: "string list \<Rightarrow> string \<Rightarrow> string \<Rightarrow> string list" where
  "replacePlaceholders cmd path event =
     replaceLoop 0 cmd path event (replicate (length cmd) [])"

text \<open>
  The reading of the specification: one left-to-right pass over the token in
  which an occurrence of \<open>{path}\<close> is replaced by the path and an occurrence of
  \<open>{event}\<close> by the event, both inserted verbatim, every other character kept.
\<close>

function substSimultaneous :: "string \<Rightarrow> string \<Rightarrow> string \<Rightarrow> string" where
  "substSimultaneous t path event =
     (if t = [] then []
      else if hasPrefix t ''{path}'' then path @ substSimultaneous (drop 6 t) path event
      else if hasPrefix t ''{event}'' then event @ substSimultaneous (drop 7 t) path event
      else hd t # substSimultaneous (tl t) path event)"
  by pat_completeness auto
termination
  by (relation "measure (\<lambda>(t, path, event). length t)") auto

declare substSimultaneous.simps [simp del]

text \<open>
  When can the path take part in an occurrence of \<open>{event}\<close> in a token after
  the first pass?  When one of its non-empty ends begins with \<open>{event}\<close> or is a
  beginning of \<open>{event}\<close>, or when the path begins with a non-empty proper end
  of \<open>{event}\<close> or is the beginning of one (which the empty path is).
\<close>

fun tails :: "string \<Rightarrow> string list" where
  "tails [] = []"
| "tails (c # cs) = (c # cs) # tails cs"

definition touchesEvent :: "string \<Rightarrow> bool" where
  "touchesEvent path =
     (list_ex (\<lambda>s. hasPrefix s ''{event}'' \<or> hasPrefix ''{event}'' s) (tails path)
      \<or> list_ex (\<lambda>s. hasPrefix path s \<or> hasPrefix s path) (tails ''event}''))"

section \<open>Configuration records (package config)\<close>

record WatchPath =
  Path :: string
  Recursive :: bool
  Ignore :: "string list"

record Command =
  Cmd :: "string list"
  Run :: string
  Timeout :: string

record OnChange =
  Commands :: "Command list"

record Config =
  Watch :: "WatchPath list"
  OnChange :: OnChange
  Debounce :: string
  MaxConcurrency :: int

section \<open>The platform the program runs on\<close>

text \<open>
  What the program reads from its platform and from the Go standard library
  without the repository defining it: the value of \<open>runtime.GOOS\<close>, the parser
  \<open>time.ParseDuration\<close> (nanoseconds, or no value on a parse error), the length
  of the volume name that \<open>filepath.VolumeName\<close> finds (always zero off
  Windows), and \<open>filepath.Match\<close> in the form the code uses it,
  \<open>err == nil && matched\<close>.
\<close>

record host =
  goosWindows :: bool
  parseDuration :: "string \<Rightarrow> int option"
  volumeNameLen :: "string \<Rightarrow> nat"
  fmatch :: "string \<Rightarrow> string \<Rightarrow> bool"

section \<open>The command executor (runner.go)\<close>

record RunResult =
  Command :: "string list"
  ExitCode :: int
  Duration :: int
  Error :: "string option"

text \<open>The zero value of \<open>RunResult\<close>, as \<open>make([]RunResult, n)\<close> fills a slice.\<close>

definition zeroResult :: RunResult where
  "zeroResult = \<lparr>Command = [], ExitCode = 0, Duration = 0, Error = None\<rparr>"

text \<open>
  \<open>strings.ToLower\<close> on the ASCII letters.  Go also lowers letters outside
  ASCII; none of them is mapped to a letter of \<open>sh\<close>, \<open>bash\<close>, \<open>powershell\<close> or
  \<open>pwsh\<close>, the only strings the result is compared with.
\<close>

definition toLowerChar :: "char \<Rightarrow> char" where
  "toLowerChar c =
     (case map_of (zip ''ABCDEFGHIJKLMNOPQRSTUVWXYZ'' ''abcdefghijklmnopqrstuvwxyz'') c of
        Some l \<Rightarrow> l
      | None \<Rightarrow> c)"

definition toLower :: "string \<Rightarrow> string" where
  "toLower s = map toLowerChar s"

text \<open>The map literal \<open>shellCommands\<close>; a missing key reads as \<open>false\<close>.\<close>

definition shellCommands :: "string \<Rightarrow> bool" where
  "shellCommands k = (k \<in> set [''sh'', ''bash'', ''powershell'', ''pwsh''])"

definition shellOperators :: "string list" where
  "shellOperators = [''|'', ''>'', ''<'', ''>>'', ''&&'', ''||'', ''&'']"

text \<open>The loop \<open>for _, op := range shellOperators\<close> with its early return.\<close>

fun containsAnyOf :: "string \<Rightarrow> string list \<Rightarrow> bool" where
  "containsAnyOf fullCmd [] = False"
| "containsAnyOf fullCmd (op # ops) =
     (if contains fullCmd op then True else containsAnyOf fullCmd ops)"

definition needsShell :: "string list \<Rightarrow> bool" where
  "needsShell cmd =
     (if length cmd = 0 then False
      else let firstCmd = toLower (hd cmd) in
        if shellCommands firstCmd then True
        else containsAnyOf (join cmd '' '') shellOperators)"

text \<open>
  What the operating system does with one launch.  The stages are those of
  \<open>executeCommand\<close>: \<open>StdoutPipe\<close>, \<open>StderrPipe\<close>, \<open>Start\<close>, then \<open>Wait\<close>, which
  ends without error, with an \<open>*exec.ExitError\<close> carrying \<open>ExitCode()\<close>, or with
  another error.  Timeouts and cancellation of the context show up here, as a
  killed process.
\<close>

datatype proc_outcome =
    StdoutPipeError string
  | StderrPipeError string
  | StartError string
  | WaitExitError int string
  | WaitOtherError string
  | WaitOk

text \<open>
  The launch oracle: given the argument vector handed to \<open>exec.CommandContext\<close>
  and the timeout, the outcome and the wall-clock \<open>time.Since(start)\<close>.  The
  clock reading \<open>idle\<close> is \<open>time.Since(start)\<close> on the path that creates no
  command object.
\<close>

record os_process =
  launch :: "string list \<Rightarrow> int \<Rightarrow> proc_outcome \<times> int"
  idle :: int

text \<open>The observable effect of an execution: each call of \<open>command.Start()\<close>.\<close>

datatype effect = Spawn "string list" int

definition defaultTimeout :: int where
  "defaultTimeout = 60 * 1000000000"

definition commandTimeout :: "host \<Rightarrow> Command \<Rightarrow> int" where
  "commandTimeout h cmd =
     (if Timeout cmd \<noteq> [] then
        (case parseDuration h (Timeout cmd) of Some d \<Rightarrow> d | None \<Rightarrow> defaultTimeout)
      else defaultTimeout)"

definition executeCommand ::
  "host \<Rightarrow> bool \<Rightarrow> os_process \<Rightarrow> Command \<Rightarrow> string \<Rightarrow> string \<Rightarrow> RunResult \<times> effect list" where
  "executeCommand h dryRun os cmd eventPath eventType =
     (let cmdWithPlaceholders = replacePlaceholders (Cmd cmd) eventPath eventType in
      if dryRun then
        (\<lparr>Command = cmdWithPlaceholders, ExitCode = 0, Duration = 0, Error = None\<rparr>, [])
      else
        let timeout = commandTimeout h cmd in
        if length cmdWithPlaceholders = 0 then
          (\<lparr>Command = cmdWithPlaceholders, ExitCode = - 1, Duration = idle os,
            Error = Some ''empty command''\<rparr>, [])
        else
          let argv = (if goosWindows h \<and> needsShell cmdWithPlaceholders
                      then [''cmd.exe'', ''/C'', join cmdWithPlaceholders '' '']
                      else cmdWithPlaceholders)
          in case launch os argv timeout of
               (StdoutPipeError err, d) \<Rightarrow>
                 (\<lparr>Command = cmdWithPlaceholders, ExitCode = - 1, Duration = d,
                   Error = Some (''failed to get stdout pipe: '' @ err)\<rparr>, [])
             | (StderrPipeError err, d) \<Rightarrow>
                 (\<lparr>Command = cmdWithPlaceholders, ExitCode = - 1, Duration = d,
                   Error = Some (''failed to get stderr pipe: '' @ err)\<rparr>, [])
             | (StartError err, d) \<Rightarrow>
                 (\<lparr>Command = cmdWithPlaceholders, ExitCode = - 1, Duration = d,
                   Error = Some (''failed to start command: '' @ err)\<rparr>, [Spawn argv timeout])
             | (WaitExitError code err, d) \<Rightarrow>
                 (\<lparr>Command = cmdWithPlaceholders, ExitCode = code, Duration = d,
                   Error = Some err\<rparr>, [Spawn argv timeout])
             | (WaitOtherError err, d) \<Rightarrow>
                 (\<lparr>Command = cmdWithPlaceholders, ExitCode = - 1, Duration = d,
                   Error = Some err\<rparr>, [Spawn argv timeout])
             | (WaitOk, d) \<Rightarrow>
                 (\<lparr>Command = cmdWithPlaceholders, ExitCode = 0, Duration = d,
                   Error = None\<rparr>, [Spawn argv timeout]))"

section \<open>The orchestrator, sequential mode (runner.go, \<open>Run\<close>)\<close>

record Runner =
  cfg :: Config
  sequential :: bool
  dryRun :: bool

text \<open>
  The loop \<open>for i, cmd := range commands\<close> of the sequential branch, from index
  \<open>i\<close> on: the result is appended, and the loop is left when the result has an
  error and a nonzero exit code.  \<open>os i\<close> is the operating system's answer to
  the launch of command \<open>i\<close>.
\<close>

fun runSequential ::
  "host \<Rightarrow> bool \<Rightarrow> (nat \<Rightarrow> os_process) \<Rightarrow> nat \<Rightarrow> Command list \<Rightarrow> string \<Rightarrow> string
     \<Rightarrow> RunResult list \<times> effect list \<Rightarrow> RunResult list \<times> effect list" where
  "runSequential h dry os i [] eventPath eventType acc = acc"
| "runSequential h dry os i (cmd # rest) eventPath eventType acc =
     (let (result, fx) = executeCommand h dry (os i) cmd eventPath eventType;
          acc' = (fst acc @ [result], snd acc @ fx)
      in if Error result \<noteq> None \<and> ExitCode result \<noteq> 0 then acc'
         else runSequential h dry os (Suc i) rest eventPath eventType acc')"

text \<open>
  What every command of the list yields when it is run in its turn, whether
  the chain gets that far or not, and the number of commands a fail-fast chain
  attempts: all up to and including the first with a nonzero exit code.
\<close>

fun outcomes ::
  "host \<Rightarrow> bool \<Rightarrow> (nat \<Rightarrow> os_process) \<Rightarrow> nat \<Rightarrow> Command list \<Rightarrow> string \<Rightarrow> string
     \<Rightarrow> (RunResult \<times> effect list) list" where
  "outcomes h dry os i [] eventPath eventType = []"
| "outcomes h dry os i (cmd # rest) eventPath eventType =
     executeCommand h dry (os i) cmd eventPath eventType
       # outcomes h dry os (Suc i) rest eventPath eventType"

definition attempted :: "RunResult list \<Rightarrow> nat" where
  "attempted rs = min (length rs) (Suc (length (takeWhile (\<lambda>r. ExitCode r = 0) rs)))"

section \<open>The orchestrator, parallel mode (runner.go, \<open>executeParallel\<close>)\<close>

text \<open>
  One goroutine per command.  It waits at the \<open>select\<close>; there it either puts
  a token into the channel \<open>sem\<close> and runs \<open>executeCommand\<close>, or sees
  \<open>gctx.Done()\<close> and returns without touching its slot.  When \<open>executeCommand\<close>
  returns, the result is stored in \<open>results[i]\<close>; the deferred function then
  takes a token out of \<open>sem\<close>, and the goroutine is finished.
\<close>

datatype goroutine = Waiting | Running | Releasing | Finished | Abandoned

record pstate =
  results :: "RunResult list"
  sem :: nat
  gos :: "goroutine list"
  ctxDone :: bool
  effects :: "effect list"

text \<open>
  The atomic steps of the goroutines, and \<open>Cancel\<close>, the cancellation of the
  context from outside.  A send on the buffered channel proceeds only while it
  holds fewer tokens than its capacity, a receive only while it holds one.
\<close>

datatype action = Acquire nat | SeeDone nat | Return nat | Release nat | Cancel

definition pstep ::
  "int \<Rightarrow> (nat \<Rightarrow> RunResult \<times> effect list) \<Rightarrow> action \<Rightarrow> pstate \<Rightarrow> pstate option" where
  "pstep maxc exec a s =
     (case a of
        Acquire i \<Rightarrow>
          if i < length (gos s) \<and> gos s ! i = Waiting \<and> int (sem s) < maxc
          then Some (s\<lparr>sem := Suc (sem s), gos := (gos s)[i := Running]\<rparr>) else None
      | SeeDone i \<Rightarrow>
          if i < length (gos s) \<and> gos s ! i = Waiting \<and> ctxDone s
          then Some (s\<lparr>gos := (gos s)[i := Abandoned]\<rparr>) else None
      | Return i \<Rightarrow>
          if i < length (gos s) \<and> gos s ! i = Running
          then Some (s\<lparr>results := (results s)[i := fst (exec i)],
                        effects := effects s @ snd (exec i),
                        gos := (gos s)[i := Releasing]\<rparr>) else None
      | Release i \<Rightarrow>
          if i < length (gos s) \<and> gos s ! i = Releasing \<and> 0 < sem s
          then Some (s\<lparr>sem := sem s - 1, gos := (gos s)[i := Finished]\<rparr>) else None
      | Cancel \<Rightarrow> Some (s\<lparr>ctxDone := True\<rparr>))"

fun runActions ::
  "int \<Rightarrow> (nat \<Rightarrow> RunResult \<times> effect list) \<Rightarrow> action list \<Rightarrow> pstate \<Rightarrow> pstate option" where
  "runActions maxc exec [] s = Some s"
| "runActions maxc exec (a # as) s =
     (case pstep maxc exec a s of None \<Rightarrow> None | Some s' \<Rightarrow> runActions maxc exec as s')"

text \<open>
  The state after \<open>results := make([]RunResult, len(commands))\<close> and the
  \<open>g.Go\<close> calls; \<open>cancelled\<close> tells whether the context was done already.
\<close>

definition initial :: "nat \<Rightarrow> bool \<Rightarrow> pstate" where
  "initial n cancelled =
     \<lparr>results = replicate n zeroResult, sem = 0, gos = replicate n Waiting,
      ctxDone = cancelled, effects = []\<rparr>"

text \<open>\<open>g.Wait()\<close> returns when every goroutine has returned.\<close>

definition allReturned :: "pstate \<Rightarrow> bool" where
  "allReturned s = list_all (\<lambda>g. g = Finished \<or> g = Abandoned) (gos s)"

text \<open>The goroutines that hold a slot and are inside \<open>executeCommand\<close>.\<close>

definition executing :: "pstate \<Rightarrow> nat" where
  "executing s = length (filter (\<lambda>g. g = Running) (gos s))"

text \<open>
  What stays true under every interleaving of \<open>n\<close> goroutines: the slices keep
  their length, the channel holds one token per goroutine between its send and
  its receive and never more than its capacity, a slot is zero until its own
  goroutine has stored its own result there, and a goroutine returns without
  running only when the context is done.
\<close>

definition holding :: "goroutine \<Rightarrow> bool" where
  "holding g = (g = Running \<or> g = Releasing)"

definition pinv :: "int \<Rightarrow> (nat \<Rightarrow> RunResult \<times> effect list) \<Rightarrow> nat \<Rightarrow> pstate \<Rightarrow> bool" where
  "pinv maxc exec n s =
     (length (gos s) = n \<and> length (results s) = n
      \<and> sem s = length (filter holding (gos s))
      \<and> (0 < sem s \<longrightarrow> int (sem s) \<le> maxc)
      \<and> (\<forall>i<n. (gos s ! i \<in> {Waiting, Running, Abandoned} \<longrightarrow> results s ! i = zeroResult)
               \<and> (gos s ! i \<in> {Releasing, Finished} \<longrightarrow> results s ! i = fst (exec i))
               \<and> (gos s ! i = Abandoned \<longrightarrow> ctxDone s)))"

text \<open>
  How far a goroutine is from its end, in steps: a measure that every step of
  a goroutine lowers.
\<close>

fun weight :: "goroutine \<Rightarrow> nat" where
  "weight Waiting = 3" | "weight Running = 2" | "weight Releasing = 1"
| "weight Finished = 0" | "weight Abandoned = 0"

text \<open>
  A call either panics (\<open>make\<close> of a channel with negative capacity), has not
  returned under the given interleaving, or returns.
\<close>

datatype 'a call = Panics | Blocked | Returned 'a

definition executeParallel ::
  "host \<Rightarrow> bool \<Rightarrow> int \<Rightarrow> (nat \<Rightarrow> os_process) \<Rightarrow> action list \<Rightarrow> bool \<Rightarrow> Command list
     \<Rightarrow> string \<Rightarrow> string \<Rightarrow> (RunResult list \<times> effect list) call" where
  "executeParallel h dry maxc os sched cancelled commands eventPath eventType =
     (if maxc < 0 then Panics
      else case runActions maxc
                  (\<lambda>i. executeCommand h dry (os i) (commands ! i) eventPath eventType)
                  sched (initial (length commands) cancelled) of
             None \<Rightarrow> Blocked
           | Some s \<Rightarrow> if allReturned s then Returned (results s, effects s) else Blocked)"

text \<open>
  \<open>Run\<close>.  The log lines and the summary count do not change what is returned
  and are left out.  \<open>sched\<close> and \<open>cancelled\<close> matter in parallel mode only.
\<close>

definition Run ::
  "Runner \<Rightarrow> host \<Rightarrow> (nat \<Rightarrow> os_process) \<Rightarrow> action list \<Rightarrow> bool \<Rightarrow> string \<Rightarrow> string
     \<Rightarrow> (RunResult list \<times> effect list) call" where
  "Run r h os sched cancelled eventPath eventType =
     (let commands = Commands (OnChange (cfg r)) in
      if length commands = 0 then Returned ([], [])
      else if sequential r then
        Returned (runSequential h (dryRun r) os 0 commands eventPath eventType ([], []))
      else executeParallel h (dryRun r) (MaxConcurrency (cfg r)) os sched cancelled
             commands eventPath eventType)"

section \<open>Ignore rules (package config, \<open>ShouldIgnore\<close>)\<close>

text \<open>\<open>strings.Index(s, sub)\<close>, with no value where Go returns \<open>-1\<close>.\<close>

fun indexOf :: "string \<Rightarrow> string \<Rightarrow> nat option" where
  "indexOf [] sub = (if sub = [] then Some 0 else None)"
| "indexOf (c # cs) sub =
     (if hasPrefix (c # cs) sub then Some 0 else map_option Suc (indexOf cs sub))"

text \<open>
  \<open>strings.Split(s, sep)\<close>: the pieces between the non-overlapping occurrences
  of \<open>sep\<close>, found from the left.  The code only splits at \<open>**\<close>; for an empty
  separator Go splits into characters (bytes here).
\<close>

function split :: "string \<Rightarrow> string \<Rightarrow> string list" where
  "split s sep =
     (if sep = [] then map (\<lambda>c. [c]) s
      else if s = [] then [[]]
      else case indexOf s sep of
             None \<Rightarrow> [s]
           | Some m \<Rightarrow> take m s # split (drop (m + length sep) s) sep)"
  by pat_completeness auto
termination
  by (relation "measure (\<lambda>(s, sep). length s)") auto

declare split.simps [simp del]

text \<open>
  The path functions of package \<open>filepath\<close>.  A path separator is \<open>/\<close>, and on
  Windows \<open>\\<close> as well; \<open>ToSlash\<close> changes nothing off Windows.  \<open>Base\<close> strips
  trailing separators and the volume name and keeps what follows the last
  separator.
\<close>

definition isPathSeparator :: "host \<Rightarrow> char \<Rightarrow> bool" where
  "isPathSeparator h c = (c = CHR ''/'' \<or> (goosWindows h \<and> c = CHR 0x5C))"

definition toSlash :: "host \<Rightarrow> string \<Rightarrow> string" where
  "toSlash h path =
     (if goosWindows h then map (\<lambda>c. if c = CHR 0x5C then CHR ''/'' else c) path else path)"

definition base :: "host \<Rightarrow> string \<Rightarrow> string" where
  "base h path =
     (if path = [] then ''.''
      else
        let stripped = rev (dropWhile (isPathSeparator h) (rev path));
            novolume = drop (volumeNameLen h stripped) stripped;
            element = rev (takeWhile (\<lambda>c. \<not> isPathSeparator h c) (rev novolume))
        in if element = [] then (if goosWindows h then [CHR 0x5C] else ''/'') else element)"

text \<open>
  \<open>filepath.Match\<close> off Windows for patterns made of literal characters, \<open>*\<close>
  and \<open>?\<close> (no character class \<open>[\<close>, no escape \<open>\\<close>), on ASCII names: \<open>*\<close>
  stands for any run of characters other than \<open>/\<close>, \<open>?\<close> for one character
  other than \<open>/\<close>.  Such patterns are never malformed, so the error of \<open>Match\<close>
  is always \<open>nil\<close> on them.
\<close>

fun globMatch :: "string \<Rightarrow> string \<Rightarrow> bool" where
  "globMatch [] name = (name = [])"
| "globMatch (p # ps) name =
     (if p = CHR ''*'' then
        (globMatch ps name
         \<or> (case name of [] \<Rightarrow> False | c # cs \<Rightarrow> c \<noteq> CHR ''/'' \<and> globMatch (p # ps) cs))
      else
        (case name of
           [] \<Rightarrow> False
         | c # cs \<Rightarrow> (if p = CHR ''?'' then c \<noteq> CHR ''/'' else c = p) \<and> globMatch ps cs))"

text \<open>A Linux host whose patterns stay within that fragment.\<close>

definition linuxHost :: host where
  "linuxHost = \<lparr>goosWindows = False, parseDuration = (\<lambda>s. None),
                 volumeNameLen = (\<lambda>p. 0), fmatch = globMatch\<rparr>"

text \<open>The block of \<open>ShouldIgnore\<close> guarded by \<open>strings.Contains(pattern, "**")\<close>.\<close>

definition starRule :: "string \<Rightarrow> string \<Rightarrow> bool" where
  "starRule pattern path =
     (let parts = split pattern ''**'' in
      if length parts = 2 then
        let prefix = trimSuffix (parts ! 0) ''/'';
            suffix = trimPrefix (parts ! 1) ''/''
        in (prefix = [] \<or> hasPrefix path prefix)
           \<and> (suffix = [] \<or> hasSuffix path suffix \<or> contains path suffix)
      else False)"

text \<open>The block guarded by \<open>strings.HasSuffix(pattern, "/")\<close>.\<close>

definition dirRule :: "string \<Rightarrow> string \<Rightarrow> bool" where
  "dirRule pattern path =
     (let dirPattern = trimSuffix pattern ''/'' in
      hasPrefix path (dirPattern @ ''/'') \<or> path = dirPattern)"

text \<open>One pass of the inner loop body: does this pattern make the function return true?\<close>

definition patternIgnores :: "host \<Rightarrow> string \<Rightarrow> string \<Rightarrow> string \<Rightarrow> bool" where
  "patternIgnores h pattern0 path bname =
     (let pattern = toSlash h pattern0 in
      if fmatch h pattern bname then True
      else if fmatch h pattern path then True
      else if contains pattern ''**'' \<and> starRule pattern path then True
      else if hasSuffix pattern ''/'' \<and> dirRule pattern path then True
      else False)"

fun ignoreLoop :: "host \<Rightarrow> string list \<Rightarrow> string \<Rightarrow> string \<Rightarrow> bool" where
  "ignoreLoop h [] path bname = False"
| "ignoreLoop h (pattern # rest) path bname =
     (if patternIgnores h pattern path bname then True else ignoreLoop h rest path bname)"

fun watchLoop :: "host \<Rightarrow> WatchPath list \<Rightarrow> string \<Rightarrow> string \<Rightarrow> bool" where
  "watchLoop h [] path bname = False"
| "watchLoop h (w # rest) path bname =
     (if ignoreLoop h (Ignore w) path bname then True else watchLoop h rest path bname)"

definition ShouldIgnore :: "host \<Rightarrow> Config \<Rightarrow> string \<Rightarrow> bool" where
  "ShouldIgnore h c path0 =
     (let path = toSlash h path0; bname = base h path in watchLoop h (Watch c) path bname)"

section \<open>The watcher (package watcher)\<close>

definition systemFolders :: "string list" where
  "systemFolders = [''$RECYCLE.BIN'', ''System Volume Information'', ''$Recycle.Bin'']"

fun containsFolder :: "string \<Rightarrow> string list \<Rightarrow> bool" where
  "containsFolder path [] = False"
| "containsFolder path (folder # rest) =
     (if contains path folder then True else containsFolder path rest)"

text \<open>
  \<open>Watcher.shouldIgnore\<close>.  The final \<open>os.Stat\<close> of \<open>.gowatchignore\<close> has an empty
  body and no effect.
\<close>

definition shouldIgnore :: "host \<Rightarrow> Config \<Rightarrow> string \<Rightarrow> bool" where
  "shouldIgnore h c path =
     (let bname = base h path in
      if hasPrefix bname ''.'' \<and> bname \<noteq> ''.'' then True
      else if goosWindows h
              \<and> (hasPrefix bname ''~$'' \<or> hasSuffix bname ''.lnk''
                  \<or> containsFolder path systemFolders) then True
      else if ShouldIgnore h c path then True
      else False)"

text \<open>The configuration of \<open>TestWatcher_ShouldIgnore\<close> (watcher\_test.go).\<close>

definition ignoreTestConfig :: Config where
  "ignoreTestConfig =
     \<lparr>Watch = [\<lparr>Path = ''/tmp'', Recursive = False,
                 Ignore = [''*.tmp'', ''vendor/**'', ''.git/**'']\<rparr>],
      OnChange = \<lparr>Commands = []\<rparr>, Debounce = ''100ms'', MaxConcurrency = 0\<rparr>"

text \<open>
  The watcher's own state: the map \<open>watched\<close>, and what it has done to the
  notification facility, namely the paths registered with \<open>fsWatcher.Add\<close> in
  order and the number of calls made to it.
\<close>

record Watcher =
  watched :: "string \<rightharpoonup> bool"
  registered :: "string list"
  calls :: nat

text \<open>The read \<open>w.watched[path]\<close>: a missing key reads as \<open>false\<close>.\<close>

definition isWatched :: "Watcher \<Rightarrow> string \<Rightarrow> bool" where
  "isWatched w path = (case watched w path of Some b \<Rightarrow> b | None \<Rightarrow> False)"

text \<open>The set of watched paths: the keys that \<open>watched\<close> maps to \<open>true\<close>.\<close>

definition watchedSet :: "Watcher \<Rightarrow> string set" where
  "watchedSet w = {p. isWatched w p}"

text \<open>
  What the file system holds at a path, as \<open>filepath.Walk\<close> sees it: a file, a
  directory with its entries in the order \<open>Walk\<close> visits them (each carrying its
  full path), a directory whose listing fails, or a path whose \<open>Lstat\<close> fails.
\<close>

datatype fsnode =
    File string
  | Dir string "fsnode list"
  | DirUnreadable string string
  | Broken string string

text \<open>
  The surroundings of the watcher: the answer of the \<open>n\<close>-th call of
  \<open>fsWatcher.Add\<close> (its error, if any), \<open>filepath.Abs\<close> with its error,
  \<open>filepath.Clean\<close>, \<open>os.Stat\<close> as a pair of \<open>IsDir()\<close> and the error, and the
  tree found at a path.
\<close>

record fsys =
  fsAdd :: "nat \<Rightarrow> string \<Rightarrow> string option"
  absPath :: "string \<Rightarrow> string \<times> string option"
  cleanPath :: "string \<Rightarrow> string"
  stat :: "string \<Rightarrow> bool \<times> string option"
  tree :: "string \<Rightarrow> fsnode"

definition addSingle :: "fsys \<Rightarrow> Watcher \<Rightarrow> string \<Rightarrow> string option \<times> Watcher" where
  "addSingle fs w path =
     (if isWatched w path then (None, w)
      else case fsAdd fs (calls w) path of
             Some err \<Rightarrow>
               (Some (''failed to watch '' @ path @ '': '' @ err), w\<lparr>calls := Suc (calls w)\<rparr>)
           | None \<Rightarrow>
               (None, w\<lparr>watched := (watched w)(path \<mapsto> True),
                         registered := registered w @ [path],
                         calls := Suc (calls w)\<rparr>))"

datatype walk_result = Continue | SkipDir | Failed string

text \<open>The function literal that \<open>addRecursive\<close> hands to \<open>filepath.Walk\<close>.\<close>

definition walkFn ::
  "host \<Rightarrow> Config \<Rightarrow> fsys \<Rightarrow> string \<Rightarrow> bool \<Rightarrow> string option \<Rightarrow> Watcher \<Rightarrow> walk_result \<times> Watcher" where
  "walkFn h c fs path isdir err w =
     (case err of
        Some e \<Rightarrow> (Failed e, w)
      | None \<Rightarrow>
          if \<not> isdir then (Continue, w)
          else if shouldIgnore h c path then (SkipDir, w)
          else (case addSingle fs w path of
                  (None, w') \<Rightarrow> (Continue, w')
                | (Some e, w') \<Rightarrow> (Failed e, w')))"

definition isDirNode :: "fsnode \<Rightarrow> bool" where
  "isDirNode n = (case n of Dir p es \<Rightarrow> True | DirUnreadable p e \<Rightarrow> True | _ \<Rightarrow> False)"

text \<open>
  \<open>filepath.Walk\<close>: the function is called on a node before its entries; a
  directory for which it answers \<open>SkipDir\<close> is not entered; any other error
  ends the walk.
\<close>

fun walk :: "host \<Rightarrow> Config \<Rightarrow> fsys \<Rightarrow> fsnode \<Rightarrow> Watcher \<Rightarrow> walk_result \<times> Watcher"
  and walkEntries :: "host \<Rightarrow> Config \<Rightarrow> fsys \<Rightarrow> fsnode list \<Rightarrow> Watcher \<Rightarrow> walk_result \<times> Watcher"
where
  "walk h c fs (File p) w = walkFn h c fs p False None w"
| "walk h c fs (Broken p err) w = walkFn h c fs p False (Some err) w"
| "walk h c fs (DirUnreadable p err) w = walkFn h c fs p True (Some err) w"
| "walk h c fs (Dir p entries) w =
     (case walkFn h c fs p True None w of
        (Continue, w') \<Rightarrow> walkEntries h c fs entries w'
      | (r, w') \<Rightarrow> (r, w'))"
| "walkEntries h c fs [] w = (Continue, w)"
| "walkEntries h c fs (n # ns) w =
     (case walk h c fs n w of
        (Continue, w') \<Rightarrow> walkEntries h c fs ns w'
      | (SkipDir, w') \<Rightarrow>
          (case n of
             Broken p err \<Rightarrow> walkEntries h c fs ns w'
           | _ \<Rightarrow> if isDirNode n then walkEntries h c fs ns w' else (SkipDir, w'))
      | (Failed e, w') \<Rightarrow> (Failed e, w'))"

definition addRecursive :: "host \<Rightarrow> Config \<Rightarrow> fsys \<Rightarrow> string \<Rightarrow> Watcher \<Rightarrow> string option \<times> Watcher" where
  "addRecursive h c fs root w =
     (case walk h c fs (tree fs root) w of
        (Failed e, w') \<Rightarrow> (Some e, w')
      | (r, w') \<Rightarrow> (None, w'))"

definition addPath :: "host \<Rightarrow> Config \<Rightarrow> fsys \<Rightarrow> WatchPath \<Rightarrow> Watcher \<Rightarrow> string option \<times> Watcher" where
  "addPath h c fs wp w =
     (case absPath fs (Path wp) of
        (p, Some e) \<Rightarrow> (Some (''failed to get absolute path: '' @ e), w)
      | (p, None) \<Rightarrow>
          (case stat fs p of
             (d, Some e) \<Rightarrow> (Some (''failed to stat path '' @ p @ '': '' @ e), w)
           | (d, None) \<Rightarrow>
               if d then (if Recursive wp then addRecursive h c fs p w else addSingle fs w p)
               else addSingle fs w p))"

text \<open>The loop over \<open>w.cfg.Watch\<close> in \<open>Start\<close>, left at the first error.\<close>

fun startLoop :: "host \<Rightarrow> Config \<Rightarrow> fsys \<Rightarrow> WatchPath list \<Rightarrow> Watcher \<Rightarrow> string option \<times> Watcher" where
  "startLoop h c fs [] w = (None, w)"
| "startLoop h c fs (wp # rest) w =
     (case addPath h c fs wp w of
        (Some e, w') \<Rightarrow> (Some e, w')
      | (None, w') \<Rightarrow> startLoop h c fs rest w')"

text \<open>A raw notification: \<open>fsnotify.Event\<close> with the bit set \<open>Op\<close>.\<close>

record fsEvent =
  Name :: string
  Op :: "32 word"

definition opCreate :: "32 word" where "opCreate = 1"
definition opChmod :: "32 word" where "opChmod = 16"

text \<open>
  The loop over \<open>w.cfg.Watch\<close> run for a newly created directory; the error of
  \<open>addSingle\<close> is logged and dropped.
\<close>

fun registerCreated :: "fsys \<Rightarrow> string \<Rightarrow> WatchPath list \<Rightarrow> Watcher \<Rightarrow> Watcher" where
  "registerCreated fs name [] w = w"
| "registerCreated fs name (wp # rest) w =
     (let absWatchPath = cleanPath fs (fst (absPath fs (Path wp)));
          absEventPath = cleanPath fs (fst (absPath fs name))
      in if Recursive wp \<and> hasPrefix absEventPath absWatchPath
         then registerCreated fs name rest (snd (addSingle fs w name))
         else registerCreated fs name rest w)"

text \<open>
  One turn of the loop of \<open>processEvents\<close> for a raw notification: the new
  state of the watcher and, unless the notification is dropped, the key and
  the operation handed to the debouncer.
\<close>

definition handleEvent ::
  "host \<Rightarrow> Config \<Rightarrow> fsys \<Rightarrow> fsEvent \<Rightarrow> Watcher \<Rightarrow> Watcher \<times> (string \<times> 32 word) option" where
  "handleEvent h c fs ev w =
     (if shouldIgnore h c (Name ev) then (w, None)
      else if Op ev AND opChmod = opChmod then (w, None)
      else
        let w' = (if Op ev AND opCreate = opCreate
                     \<and> snd (stat fs (Name ev)) = None \<and> fst (stat fs (Name ev))
                  then registerCreated fs (Name ev) (Watch c) w else w)
        in (w', Some (Name ev, Op ev)))"

section \<open>The debouncer (package watcher)\<close>

record 'a Debouncer =
  delay :: nat
  timers :: "string \<rightharpoonup> nat"
  pending :: "string \<rightharpoonup> 'a"

definition NewDebouncer :: "nat \<Rightarrow> 'a Debouncer" where
  "NewDebouncer d = \<lparr>delay = d, timers = Map.empty, pending = Map.empty\<rparr>"

text \<open>
  The debouncer together with the timers of the Go runtime, on a clock that
  counts in the unit of the delay.  A timer made by \<open>time.AfterFunc\<close> is a
  handle with its deadline and the key its function has captured; it stays
  armed until it is stopped or its function has run.  The functions handed to
  \<open>Add\<close> are values of type \<open>'a\<close>; running one is recorded with the time and
  the key of the timer that ran it.
\<close>

record 'a timed =
  debouncer :: "'a Debouncer"
  now :: nat
  armed :: "(nat \<times> nat \<times> string) list"
  nextTimer :: nat
  executed :: "(nat \<times> string \<times> 'a) list"

definition fresh :: "nat \<Rightarrow> 'a timed" where
  "fresh d = \<lparr>debouncer = NewDebouncer d, now = 0, armed = [], nextTimer = 0, executed = []\<rparr>"

text \<open>
  \<open>Debouncer.Add\<close>, under the mutex: stop the timer recorded for the key, store
  the function, arm a new timer.
\<close>

definition Add :: "string \<Rightarrow> 'a \<Rightarrow> 'a timed \<Rightarrow> 'a timed" where
  "Add key fn w =
     (let d = debouncer w;
          kept = (case timers d key of
                    Some t \<Rightarrow> filter (\<lambda>(h, dl, k). h \<noteq> t) (armed w)
                  | None \<Rightarrow> armed w);
          t' = nextTimer w
      in w\<lparr>debouncer := d\<lparr>pending := (pending d)(key \<mapsto> fn), timers := (timers d)(key \<mapsto> t')\<rparr>,
           armed := kept @ [(t', now w + delay d, key)],
           nextTimer := Suc t'\<rparr>)"

text \<open>
  The function of a timer, run at its deadline: under the mutex it takes the
  pending function of its key and deletes both entries; then it runs the
  function, if there is one.
\<close>

definition fire :: "nat \<times> nat \<times> string \<Rightarrow> 'a timed \<Rightarrow> 'a timed" where
  "fire tm w =
     (case tm of (h, dl, key) \<Rightarrow>
        let d = debouncer w;
            fn = pending d key;
            w1 = w\<lparr>now := max (now w) dl,
                   armed := filter (\<lambda>(h', dl', k'). h' \<noteq> h) (armed w),
                   debouncer := d\<lparr>pending := (pending d)(key := None),
                                   timers := (timers d)(key := None)\<rparr>\<rparr>
        in case fn of
             None \<Rightarrow> w1
           | Some f \<Rightarrow> w1\<lparr>executed := executed w1 @ [(now w1, key, f)]\<rparr>)"

text \<open>Time passes up to \<open>t\<close>: the armed timers that are due run, earliest first.\<close>

definition advance :: "nat \<Rightarrow> 'a timed \<Rightarrow> 'a timed" where
  "advance t w =
     (foldl (\<lambda>w' tm. fire tm w') w
        (sort_key (\<lambda>(h, dl, k). dl) (filter (\<lambda>(h, dl, k). dl \<le> t) (armed w))))
     \<lparr>now := max (now w) t\<rparr>"

text \<open>A series of calls \<open>Add(key, fn)\<close>, each made at its time.\<close>

fun addAt :: "(nat \<times> string \<times> 'a) list \<Rightarrow> 'a timed \<Rightarrow> 'a timed" where
  "addAt [] w = w"
| "addAt ((t, key, fn) # rest) w = addAt rest (Add key fn (advance t w))"


text \<open>
  What has been run for one key, and the calls made for one key, each in order
  and with its time.
\<close>

definition executedFor :: "string \<Rightarrow> 'a timed \<Rightarrow> (nat \<times> 'a) list" where
  "executedFor key w =
     map (\<lambda>(t, k, f). (t, f)) (filter (\<lambda>(t, k, f). k = key) (executed w))"

definition callsOf :: "string \<Rightarrow> (nat \<times> string \<times> 'a) list \<Rightarrow> (nat \<times> 'a) list" where
  "callsOf key cs = map (\<lambda>(t, k, f). (t, f)) (filter (\<lambda>(t, k, f). k = key) cs)"

text \<open>
  The invariant of the debouncer and its timers: the armed timers have distinct
  handles and are listed by deadline, each is due within the delay, is the
  timer recorded for its key and has a pending function; and every recorded
  timer is armed.
\<close>

definition timersOk :: "nat \<Rightarrow> 'a timed \<Rightarrow> bool" where
  "timersOk d w =
     (delay (debouncer w) = d
      \<and> distinct (map fst (armed w))
      \<and> sorted (map (\<lambda>(h, dl, k). dl) (armed w))
      \<and> (\<forall>(h, dl, k)\<in>set (armed w).
            h < nextTimer w \<and> now w \<le> dl \<and> dl \<le> now w + d
            \<and> timers (debouncer w) k = Some h \<and> pending (debouncer w) k \<noteq> None)
      \<and> (\<forall>k h. timers (debouncer w) k = Some h \<longrightarrow> (\<exists>dl. (h, dl, k) \<in> set (armed w))))"

text \<open>The armed timer of a key with the function it will run: deadline and function.\<close>

definition inflight :: "string \<Rightarrow> 'a timed \<Rightarrow> (nat \<times> 'a) option" where
  "inflight key w =
     (case find (\<lambda>(h, dl, k). k = key) (armed w) of
        None \<Rightarrow> None
      | Some (h, dl, k) \<Rightarrow> map_option (\<lambda>f. (dl, f)) (pending (debouncer w) key))"

section \<open>Basic facts about the string primitives\<close>

lemma hasPrefix_iff: "hasPrefix s p \<longleftrightarrow> (\<exists>r. s = p @ r)"
  by (induction s p rule: hasPrefix.induct) auto

lemma hasPrefix_append_self [simp]: "hasPrefix (p @ r) p"
  by (simp add: hasPrefix_iff)

lemma hasPrefix_Nil [simp]: "hasPrefix [] p \<longleftrightarrow> p = []"
  by (cases p) auto

lemma replaceAll_Nil [simp]: "old \<noteq> [] \<Longrightarrow> replaceAll [] old new = []"
  by (simp add: replaceAll.simps)

lemma replaceAll_match:
  "old \<noteq> [] \<Longrightarrow> replaceAll (old @ r) old new = new @ replaceAll r old new"
  by (subst replaceAll.simps) simp

lemma replaceAll_skip:
  "old \<noteq> [] \<Longrightarrow> \<not> hasPrefix (c # cs) old \<Longrightarrow>
   replaceAll (c # cs) old new = c # replaceAll cs old new"
  by (subst replaceAll.simps) simp

lemma replaceAll_Cons:
  "old \<noteq> [] \<Longrightarrow> replaceAll (c # cs) old new =
     (if hasPrefix (c # cs) old then new @ replaceAll (drop (length old) (c # cs)) old new
      else c # replaceAll cs old new)"
  by (subst replaceAll.simps) simp

lemma hasPrefix_appendI: "hasPrefix x p \<Longrightarrow> hasPrefix (x @ z) p"
  by (auto simp: hasPrefix_iff)

lemma no_self_overlap:
  assumes "c \<notin> set w" "x \<noteq> []" "hasPrefix (x @ (c # w) @ y) (c # w)"
  shows "hasPrefix x (c # w)"
proof -
  from assms(3) obtain r where eq: "x @ (c # w) @ y = (c # w) @ r"
    by (auto simp: hasPrefix_iff)
  then obtain us where "(x = (c # w) @ us \<and> us @ (c # w) @ y = r) \<or> (x @ us = c # w \<and> (c # w) @ y = us @ r)"
    unfolding append_eq_append_conv2 by blast
  then show ?thesis
  proof
    assume "x = (c # w) @ us \<and> us @ (c # w) @ y = r"
    then show ?thesis by (simp add: hasPrefix_iff)
  next
    assume a: "x @ us = c # w \<and> (c # w) @ y = us @ r"
    show ?thesis
    proof (cases us)
      case Nil
      with a show ?thesis by (simp add: hasPrefix_iff)
    next
      case (Cons u us')
      with a have "u = c" by simp
      moreover from a assms(2) obtain x' where "x = c # x'" "w = x' @ us"
        by (cases x) auto
      ultimately have "c \<in> set w" using Cons by simp
      with assms(1) show ?thesis by simp
    qed
  qed
qed

lemma replaceAll_split:
  assumes "c \<notin> set w"
  shows "replaceAll (x @ (c # w) @ y) (c # w) new =
         replaceAll x (c # w) new @ new @ replaceAll y (c # w) new"
proof (induction x rule: length_induct)
  case (1 x)
  show ?case
  proof (cases x)
    case Nil
    then show ?thesis using replaceAll_match [of "c # w" y new] by simp
  next
    case (Cons d x')
    show ?thesis
    proof (cases "hasPrefix (x @ (c # w) @ y) (c # w)")
      case True
      have xne: "x \<noteq> []" using Cons by simp
      from assms xne True have "hasPrefix x (c # w)" by (rule no_self_overlap)
      then obtain x'' where x: "x = (c # w) @ x''" by (auto simp: hasPrefix_iff)
      then have "length x'' < length x" by simp
      with 1 have IH: "replaceAll (x'' @ (c # w) @ y) (c # w) new =
         replaceAll x'' (c # w) new @ new @ replaceAll y (c # w) new" by blast
      have "replaceAll (x @ (c # w) @ y) (c # w) new
            = replaceAll ((c # w) @ (x'' @ (c # w) @ y)) (c # w) new"
        unfolding x by simp
      also have "\<dots> = new @ replaceAll (x'' @ (c # w) @ y) (c # w) new"
        by (rule replaceAll_match) simp
      also have "\<dots> = (new @ replaceAll x'' (c # w) new) @ new @ replaceAll y (c # w) new"
        unfolding IH by simp
      also have "new @ replaceAll x'' (c # w) new = replaceAll x (c # w) new"
        unfolding x by (rule replaceAll_match [symmetric]) simp
      finally show ?thesis .
    next
      case False
      then have nx: "\<not> hasPrefix (d # x') (c # w)" using hasPrefix_appendI Cons by blast
      from False Cons have F: "\<not> hasPrefix (d # (x' @ (c # w) @ y)) (c # w)" by simp
      from Cons have "length x' < length x" by simp
      with 1 have IH: "replaceAll (x' @ (c # w) @ y) (c # w) new =
         replaceAll x' (c # w) new @ new @ replaceAll y (c # w) new" by blast
      have "replaceAll (x @ (c # w) @ y) (c # w) new
            = replaceAll (d # (x' @ (c # w) @ y)) (c # w) new"
        unfolding Cons by simp
      also have "\<dots> = d # replaceAll (x' @ (c # w) @ y) (c # w) new"
        using F by (intro replaceAll_skip) simp_all
      also have "\<dots> = (d # replaceAll x' (c # w) new) @ new @ replaceAll y (c # w) new"
        unfolding IH by simp
      also have "d # replaceAll x' (c # w) new = replaceAll x (c # w) new"
        unfolding Cons using nx by (intro replaceAll_skip [symmetric]) simp_all
      finally show ?thesis .
    qed
  qed
qed

lemma replaceLoop_eq:
  "i + length ts \<le> length result \<Longrightarrow>
   replaceLoop i ts p e result =
     take i result @ map (\<lambda>t. substToken t p e) ts @ drop (i + length ts) result"
proof (induction ts arbitrary: i result)
  case Nil
  then show ?case by simp
next
  case (Cons t ts)
  have "replaceLoop i (t # ts) p e result =
        replaceLoop (Suc i) ts p e (result[i := substToken t p e])" by simp
  also have "\<dots> = take (Suc i) (result[i := substToken t p e]) @ map (\<lambda>t. substToken t p e) ts
        @ drop (Suc i + length ts) (result[i := substToken t p e])"
    using Cons.prems by (intro Cons.IH) simp
  also have "take (Suc i) (result[i := substToken t p e]) = take i result @ [substToken t p e]"
    using Cons.prems by (simp add: take_Suc_conv_app_nth)
  also have "drop (Suc i + length ts) (result[i := substToken t p e]) = drop (i + length (t # ts)) result"
    by simp
  finally show ?case by simp
qed

lemma replacePlaceholders_map:
  "replacePlaceholders cmd p e = map (\<lambda>t. substToken t p e) cmd"
  unfolding replacePlaceholders_def by (simp add: replaceLoop_eq)

lemma replaceAll_notin:
  "c \<notin> set x \<Longrightarrow> replaceAll (x @ r) (c # w) new = x @ replaceAll r (c # w) new"
  by (induction x) (auto simp: replaceAll_skip)

lemma tails_iff: "s \<in> set (tails p) \<longleftrightarrow> s \<noteq> [] \<and> (\<exists>a. p = a @ s)"
proof (induction p)
  case Nil
  then show ?case by simp
next
  case (Cons c p)
  show ?case
  proof
    assume "s \<in> set (tails (c # p))"
    then consider "s = c # p" | "s \<in> set (tails p)" by auto
    then show "s \<noteq> [] \<and> (\<exists>a. c # p = a @ s)"
    proof cases
      case 1
      then show ?thesis by simp
    next
      case 2
      with Cons obtain a where "s \<noteq> []" "p = a @ s" by auto
      then show ?thesis by (auto intro: exI [of _ "c # a"])
    qed
  next
    assume a: "s \<noteq> [] \<and> (\<exists>a. c # p = a @ s)"
    then obtain a where e: "c # p = a @ s" and ne: "s \<noteq> []" by auto
    show "s \<in> set (tails (c # p))"
    proof (cases a)
      case Nil
      with e have "s = c # p" by simp
      then show ?thesis by simp
    next
      case (Cons d a')
      with e have "p = a' @ s" by simp
      with ne Cons.IH show ?thesis by auto
    qed
  qed
qed

lemma hasPrefix_append_cases:
  "hasPrefix (a @ r) b \<Longrightarrow> hasPrefix a b \<or> hasPrefix b a"
proof -
  assume "hasPrefix (a @ r) b"
  then obtain z where "a @ r = b @ z" by (auto simp: hasPrefix_iff)
  then obtain us where "a = b @ us \<or> a @ us = b"
    unfolding append_eq_append_conv2 by blast
  then show ?thesis by (auto simp: hasPrefix_iff)
qed

lemma replaceAll_pass:
  assumes "\<forall>s\<in>set (tails p). \<not> (hasPrefix s (c # w) \<or> hasPrefix (c # w) s)"
  shows "replaceAll (p @ r) (c # w) new = p @ replaceAll r (c # w) new"
  using assms
proof (induction p)
  case Nil
  then show ?case by simp
next
  case (Cons d p)
  have "\<not> hasPrefix ((d # p) @ r) (c # w)"
    using Cons.prems hasPrefix_append_cases [of "d # p" r "c # w"] by auto
  then have "replaceAll ((d # p) @ r) (c # w) new = d # replaceAll (p @ r) (c # w) new"
    using replaceAll_skip [of "c # w" d "p @ r" new] by simp
  with Cons show ?case by simp
qed

lemma hasPrefix_replaceAll_back:
  assumes "w \<noteq> []" "\<forall>s\<in>set (tails w). \<not> (hasPrefix p s \<or> hasPrefix s p)" "c0 \<notin> set w"
    and "hasPrefix (replaceAll cs (c0 # old) p) w"
  shows "hasPrefix cs w"
  using assms
proof (induction cs arbitrary: w)
  case Nil
  then show ?case by simp
next
  case (Cons d ds)
  show ?case
  proof (cases "hasPrefix (d # ds) (c0 # old)")
    case True
    then have "replaceAll (d # ds) (c0 # old) p = p @ replaceAll (drop (length (c0 # old)) (d # ds)) (c0 # old) p"
      by (subst replaceAll_Cons) simp_all
    with Cons.prems(4) have "hasPrefix p w \<or> hasPrefix w p"
      using hasPrefix_append_cases by metis
    moreover have "w \<in> set (tails w)" using Cons.prems(1) by (cases w) auto
    ultimately show ?thesis using Cons.prems(2) by blast
  next
    case False
    then have R: "replaceAll (d # ds) (c0 # old) p = d # replaceAll ds (c0 # old) p"
      by (intro replaceAll_skip) simp_all
    from Cons.prems(1) obtain w1 w' where w: "w = w1 # w'" by (cases w) auto
    with Cons.prems(4) R have d: "d = w1" and h: "hasPrefix (replaceAll ds (c0 # old) p) w'"
      by simp_all
    show ?thesis
    proof (cases "w' = []")
      case True
      with w d show ?thesis by simp
    next
      case False
      have "hasPrefix ds w'"
      proof (rule Cons.IH)
        show "w' \<noteq> []" by fact
        show "\<forall>s\<in>set (tails w'). \<not> (hasPrefix p s \<or> hasPrefix s p)"
          using Cons.prems(2) w by simp
        show "c0 \<notin> set w'" using Cons.prems(3) w by simp
        show "hasPrefix (replaceAll ds (c0 # old) p) w'" by fact
      qed
      with w d show ?thesis by simp
    qed
  qed
qed

lemma substToken_Nil: "substToken [] p e = []"
  by (simp add: substToken_def)

lemma substToken_path:
  assumes "\<not> touchesEvent p"
  shows "substToken (''{path}'' @ t) p e = p @ substToken t p e"
proof -
  have "replaceAll (''{path}'' @ t) ''{path}'' p = p @ replaceAll t ''{path}'' p"
    by (rule replaceAll_match) simp
  moreover have "replaceAll (p @ replaceAll t ''{path}'' p) (CHR ''{'' # ''event}'') e
                 = p @ replaceAll (replaceAll t ''{path}'' p) (CHR ''{'' # ''event}'') e"
    using assms by (intro replaceAll_pass) (simp add: touchesEvent_def list_ex_iff)
  ultimately show ?thesis by (simp add: substToken_def)
qed

lemma substToken_event:
  "substToken (''{event}'' @ t) p e = e @ substToken t p e"
proof -
  have "replaceAll (''{event}'' @ t) ''{path}'' p = CHR ''{'' # replaceAll (''event}'' @ t) ''{path}'' p"
    by (simp add: replaceAll_skip)
  also have "replaceAll (''event}'' @ t) ''{path}'' p = ''event}'' @ replaceAll t ''{path}'' p"
    using replaceAll_notin [of "CHR ''{''" "''event}''" t "''path}''" p] by simp
  finally have "replaceAll (''{event}'' @ t) ''{path}'' p = ''{event}'' @ replaceAll t ''{path}'' p"
    by simp
  then show ?thesis
    using replaceAll_match [of "''{event}''" "replaceAll t ''{path}'' p" e]
    by (simp add: substToken_def)
qed

lemma substToken_other:
  assumes "\<not> touchesEvent p"
    and "\<not> hasPrefix (c # cs) ''{path}''" "\<not> hasPrefix (c # cs) ''{event}''"
  shows "substToken (c # cs) p e = c # substToken cs p e"
proof -
  have R: "replaceAll (c # cs) ''{path}'' p = c # replaceAll cs ''{path}'' p"
    using assms(2) by (intro replaceAll_skip) simp_all
  have "\<not> hasPrefix (c # replaceAll cs ''{path}'' p) ''{event}''"
  proof
    assume a: "hasPrefix (c # replaceAll cs ''{path}'' p) ''{event}''"
    then have c: "c = CHR ''{''" and h: "hasPrefix (replaceAll cs (CHR ''{'' # ''path}'') p) ''event}''"
      by simp_all
    have "hasPrefix cs ''event}''"
    proof (rule hasPrefix_replaceAll_back [OF _ _ _ h])
      show "''event}'' \<noteq> []" by simp
      show "\<forall>s\<in>set (tails ''event}''). \<not> (hasPrefix p s \<or> hasPrefix s p)"
        using assms(1) unfolding touchesEvent_def list_ex_iff by blast
      show "CHR ''{'' \<notin> set ''event}''" by simp
    qed
    with c assms(3) show False by simp
  qed
  then have "replaceAll (c # replaceAll cs ''{path}'' p) ''{event}'' e
             = c # replaceAll (replaceAll cs ''{path}'' p) ''{event}'' e"
    by (intro replaceAll_skip) simp_all
  with R show ?thesis by (simp add: substToken_def)
qed

lemma substToken_simultaneous:
  assumes "\<not> touchesEvent p"
  shows "substToken t p e = substSimultaneous t p e"
proof (induction t rule: length_induct)
  case (1 t)
  show ?case
  proof (cases t)
    case Nil
    then show ?thesis by (simp add: substToken_Nil substSimultaneous.simps)
  next
    case (Cons c cs)
    consider (path) "hasPrefix t ''{path}''"
      | (event) "\<not> hasPrefix t ''{path}''" "hasPrefix t ''{event}''"
      | (other) "\<not> hasPrefix t ''{path}''" "\<not> hasPrefix t ''{event}''" by blast
    then show ?thesis
    proof cases
      case path
      then obtain r where t: "t = ''{path}'' @ r" by (auto simp: hasPrefix_iff)
      then have "length r < length t" by simp
      with 1 have IH: "substToken r p e = substSimultaneous r p e" by blast
      have "substSimultaneous t p e = p @ substSimultaneous r p e"
        by (subst substSimultaneous.simps) (simp add: t)
      moreover have "substToken t p e = p @ substToken r p e"
        unfolding t using assms by (rule substToken_path)
      ultimately show ?thesis using IH by simp
    next
      case event
      then obtain r where t: "t = ''{event}'' @ r" by (auto simp: hasPrefix_iff)
      then have "length r < length t" by simp
      with 1 have IH: "substToken r p e = substSimultaneous r p e" by blast
      have "substSimultaneous t p e = e @ substSimultaneous r p e"
        by (subst substSimultaneous.simps) (simp add: t)
      moreover have "substToken t p e = e @ substToken r p e"
        unfolding t by (rule substToken_event)
      ultimately show ?thesis using IH by simp
    next
      case other
      from Cons have "length cs < length t" by simp
      with 1 have IH: "substToken cs p e = substSimultaneous cs p e" by blast
      have "substSimultaneous t p e = c # substSimultaneous cs p e"
        using other Cons by (subst substSimultaneous.simps) auto
      moreover have "substToken t p e = c # substToken cs p e"
        unfolding Cons using assms other [unfolded Cons] by (rule substToken_other)
      ultimately show ?thesis using IH by simp
    qed
  qed
qed

lemma braceless_not_touching:
  assumes "CHR ''{'' \<notin> set p" "CHR ''}'' \<notin> set p" "\<exists>a\<in>set p. a \<notin> set ''event''"
  shows "\<not> touchesEvent p"
proof -
  have A: "\<not> (hasPrefix s ''{event}'' \<or> hasPrefix ''{event}'' s)" if "s \<in> set (tails p)" for s
  proof -
    from that obtain a where s: "s \<noteq> []" "p = a @ s" by (auto simp: tails_iff)
    then have sub: "set s \<subseteq> set p" by auto
    show ?thesis
    proof
      assume "hasPrefix s ''{event}'' \<or> hasPrefix ''{event}'' s"
      then have "CHR ''{'' \<in> set s"
        using s(1) by (cases s) (auto simp: hasPrefix_iff)
      with sub assms(1) show False by blast
    qed
  qed
  have B: "\<not> (hasPrefix p s \<or> hasPrefix s p)" if "s \<in> set (tails ''event}'')" for s
  proof
    assume h: "hasPrefix p s \<or> hasPrefix s p"
    from that have last: "CHR ''}'' \<in> set s" and sub: "set s \<subseteq> set ''event}''" by auto
    from h show False
    proof
      assume "hasPrefix p s"
      then have "set s \<subseteq> set p" by (auto simp: hasPrefix_iff)
      with last assms(2) show False by blast
    next
      assume "hasPrefix s p"
      then have "set p \<subseteq> set s" by (auto simp: hasPrefix_iff)
      with sub assms(2,3) show False by auto
    qed
  qed
  from A B show ?thesis unfolding touchesEvent_def list_ex_iff by blast
qed


lemma replaceAll_length_le:
  assumes "old \<noteq> []" "length new \<le> length old"
  shows "length (replaceAll s old new) \<le> length s"
proof (induction s rule: length_induct)
  case (1 s)
  show ?case
  proof (cases s)
    case Nil
    with assms show ?thesis by simp
  next
    case (Cons c cs)
    show ?thesis
    proof (cases "hasPrefix s old")
      case True
      then obtain r where s: "s = old @ r" by (auto simp: hasPrefix_iff)
      with assms(1) have "length r < length s" by simp
      with 1 have "length (replaceAll r old new) \<le> length r" by blast
      with assms s replaceAll_match [of old r new] show ?thesis by simp
    next
      case False
      from Cons have "length cs < length s" by simp
      with 1 have "length (replaceAll cs old new) \<le> length cs" by blast
      with False Cons assms(1) replaceAll_skip [of old c cs new] show ?thesis by simp
    qed
  qed
qed

lemma replaceAll_length_ge:
  assumes "old \<noteq> []" "length old \<le> length new"
  shows "length s \<le> length (replaceAll s old new)"
proof (induction s rule: length_induct)
  case (1 s)
  show ?case
  proof (cases s)
    case Nil
    with assms show ?thesis by simp
  next
    case (Cons c cs)
    show ?thesis
    proof (cases "hasPrefix s old")
      case True
      then obtain r where s: "s = old @ r" by (auto simp: hasPrefix_iff)
      with assms(1) have "length r < length s" by simp
      with 1 have "length r \<le> length (replaceAll r old new)" by blast
      with assms s replaceAll_match [of old r new] show ?thesis by simp
    next
      case False
      from Cons have "length cs < length s" by simp
      with 1 have "length cs \<le> length (replaceAll cs old new)" by blast
      with False Cons assms(1) replaceAll_skip [of old c cs new] show ?thesis by simp
    qed
  qed
qed

lemma replaced_length_neq:
  assumes "length e \<noteq> 7"
  shows "length (replaceAll a ''{event}'' e @ e @ replaceAll b ''{event}'' e)
         \<noteq> length (a @ ''{event}'' @ b)"
proof (cases "length e < 7")
  case True
  then have "length (replaceAll a ''{event}'' e) \<le> length a"
    and "length (replaceAll b ''{event}'' e) \<le> length b"
    by (simp_all add: replaceAll_length_le)
  with True show ?thesis by simp
next
  case False
  with assms have "7 < length e" by simp
  then have "length a \<le> length (replaceAll a ''{event}'' e)"
    and "length b \<le> length (replaceAll b ''{event}'' e)"
    by (simp_all add: replaceAll_length_ge)
  with \<open>7 < length e\<close> show ?thesis by simp
qed

lemma substSimultaneous_Nil [simp]: "substSimultaneous [] p e = []"
  by (simp add: substSimultaneous.simps)

lemma substSimultaneous_pass:
  "CHR ''{'' \<notin> set x \<Longrightarrow> substSimultaneous (x @ r) p e = x @ substSimultaneous r p e"
proof (induction x)
  case Nil
  then show ?case by simp
next
  case (Cons c x)
  then show ?case by (subst substSimultaneous.simps) auto
qed

lemma substSimultaneous_path:
  "substSimultaneous (''{path}'' @ r) p e = p @ substSimultaneous r p e"
  by (subst substSimultaneous.simps) simp

lemma substSimultaneous_brace:
  "\<not> hasPrefix (CHR ''{'' # r) ''{path}'' \<Longrightarrow> \<not> hasPrefix (CHR ''{'' # r) ''{event}'' \<Longrightarrow>
   substSimultaneous (CHR ''{'' # r) p e = CHR ''{'' # substSimultaneous r p e"
  by (subst substSimultaneous.simps) simp

lemma touch_suffix:
  assumes "p = a @ s" "s \<noteq> []" "hasPrefix s ''{event}'' \<or> hasPrefix ''{event}'' s" "length e \<noteq> 7"
  shows "\<exists>t. substToken t p e \<noteq> substSimultaneous t p e"
proof -
  have "\<exists>u b. s @ u = ''{event}'' @ b \<and> (u = [] \<or> b = [])"
    using assms(3)
  proof
    assume "hasPrefix s ''{event}''"
    then obtain b where "s = ''{event}'' @ b" by (auto simp: hasPrefix_iff)
    then have "s @ [] = ''{event}'' @ b \<and> ([] = [] \<or> b = [])" by simp
    then show ?thesis by blast
  next
    assume "hasPrefix ''{event}'' s"
    then obtain r where "''{event}'' = s @ r" by (auto simp: hasPrefix_iff)
    then have "s @ r = ''{event}'' @ [] \<and> (r = [] \<or> [] = [])" by simp
    then show ?thesis by blast
  qed
  then obtain u b where sw: "s @ u = ''{event}'' @ b" and ub: "u = [] \<or> b = []"
    by blast
  have u: "CHR ''{'' \<notin> set u"
  proof (cases "u = []")
    case True then show ?thesis by simp
  next
    case False
    with ub sw have "s @ u = ''{event}''" by simp
    with assms(2) obtain s' where "s = CHR ''{'' # s'" "s' @ u = ''event}''"
      by (cases s) auto
    then have "set u \<subseteq> set ''event}''" by (metis set_append Un_upper2)
    then show ?thesis by auto
  qed
  let ?t = "''{path}'' @ u"
  have "replaceAll ?t ''{path}'' p = p @ replaceAll u ''{path}'' p"
    by (rule replaceAll_match) simp
  also have "replaceAll u ''{path}'' p = u"
    using u replaceAll_notin [of "CHR ''{''" u "[]" "''path}''" p] by simp
  finally have mid: "replaceAll ?t ''{path}'' p = a @ ''{event}'' @ b"
    using assms(1) sw by simp
  have "replaceAll (a @ (CHR ''{'' # ''event}'') @ b) (CHR ''{'' # ''event}'') e
        = replaceAll a (CHR ''{'' # ''event}'') e @ e @ replaceAll b (CHR ''{'' # ''event}'') e"
    by (rule replaceAll_split) simp
  with mid have seq: "substToken ?t p e = replaceAll a ''{event}'' e @ e @ replaceAll b ''{event}'' e"
    by (simp add: substToken_def)
  have "substSimultaneous ?t p e = p @ substSimultaneous u p e"
    by (rule substSimultaneous_path)
  also have "substSimultaneous u p e = u"
    using u substSimultaneous_pass [of u "[]" p e] by simp
  finally have sim: "substSimultaneous ?t p e = a @ ''{event}'' @ b"
    using assms(1) sw by simp
  from seq sim replaced_length_neq [OF assms(4), of a b]
  have "substToken ?t p e \<noteq> substSimultaneous ?t p e" by metis
  then show ?thesis by blast
qed

lemma event_prefix_facts:
  assumes "v \<in> set [[], ''e'', ''ev'', ''eve'', ''even'', ''event'']"
  shows "replaceAll (CHR ''{'' # v) ''{path}'' p = CHR ''{'' # v"
    and "\<not> hasPrefix (CHR ''{'' # v @ ''{path}'' @ u) ''{path}''"
    and "\<not> hasPrefix (CHR ''{'' # v @ ''{path}'' @ u) ''{event}''"
    and "CHR ''{'' \<notin> set v"
  using assms by (auto simp: replaceAll_Cons)

lemma tails_event:
  assumes "s \<in> set (tails ''event}'')"
  shows "\<exists>v\<in>set [[], ''e'', ''ev'', ''eve'', ''even'', ''event'']. v @ s = ''event}''"
  using assms by auto

lemma touch_prefix:
  assumes "s \<in> set (tails ''event}'')" "hasPrefix p s \<or> hasPrefix s p" "length e \<noteq> 7"
  shows "\<exists>t. substToken t p e \<noteq> substSimultaneous t p e"
proof -
  have "\<exists>u b. p @ u = s @ b \<and> (u = [] \<or> b = [])"
    using assms(2)
  proof
    assume "hasPrefix p s"
    then obtain b where "p = s @ b" by (auto simp: hasPrefix_iff)
    then have "p @ [] = s @ b \<and> ([] = [] \<or> b = [])" by simp
    then show ?thesis by blast
  next
    assume "hasPrefix s p"
    then obtain r where "s = p @ r" by (auto simp: hasPrefix_iff)
    then have "p @ r = s @ [] \<and> (r = [] \<or> [] = [])" by simp
    then show ?thesis by blast
  qed
  then obtain u b where pu: "p @ u = s @ b" and ub: "u = [] \<or> b = []" by blast
  from tails_event [OF assms(1)] obtain v
    where v: "v \<in> set [[], ''e'', ''ev'', ''eve'', ''even'', ''event'']" and vs: "v @ s = ''event}''"
    by blast
  have u: "CHR ''{'' \<notin> set u"
  proof (cases "u = []")
    case True then show ?thesis by simp
  next
    case False
    with ub pu have "p @ u = s" by simp
    then have "set u \<subseteq> set s" by auto
    moreover from vs have "set s \<subseteq> set ''event}''" by (metis set_append Un_upper2)
    ultimately show ?thesis by auto
  qed
  have whole: "CHR ''{'' # v @ p @ u = ''{event}'' @ b"
  proof -
    have "CHR ''{'' # v @ p @ u = CHR ''{'' # (v @ s) @ b" using pu by simp
    then show ?thesis unfolding vs by simp
  qed
  let ?t = "(CHR ''{'' # v) @ ''{path}'' @ u"
  have "replaceAll ((CHR ''{'' # v) @ (CHR ''{'' # ''path}'') @ u) (CHR ''{'' # ''path}'') p
        = replaceAll (CHR ''{'' # v) (CHR ''{'' # ''path}'') p @ p
            @ replaceAll u (CHR ''{'' # ''path}'') p"
    by (rule replaceAll_split) simp
  moreover have "replaceAll u ''{path}'' p = u"
    using u replaceAll_notin [of "CHR ''{''" u "[]" "''path}''" p] by simp
  moreover have "replaceAll (CHR ''{'' # v) ''{path}'' p = CHR ''{'' # v"
    using v by (rule event_prefix_facts(1))
  ultimately have mid: "replaceAll ?t ''{path}'' p = ''{event}'' @ b"
    using whole by simp
  have "replaceAll (''{event}'' @ b) ''{event}'' e = e @ replaceAll b ''{event}'' e"
    by (rule replaceAll_match) simp
  with mid have seq: "substToken ?t p e = replaceAll [] ''{event}'' e @ e @ replaceAll b ''{event}'' e"
    by (simp add: substToken_def)
  have "substSimultaneous ?t p e = CHR ''{'' # substSimultaneous (v @ ''{path}'' @ u) p e"
    using event_prefix_facts(2,3) [OF v, of u] substSimultaneous_brace [of "v @ ''{path}'' @ u" p e]
    by simp
  also have "substSimultaneous (v @ ''{path}'' @ u) p e = v @ substSimultaneous (''{path}'' @ u) p e"
    using event_prefix_facts(4) [OF v] by (rule substSimultaneous_pass)
  also have "substSimultaneous (''{path}'' @ u) p e = p @ substSimultaneous u p e"
    by (rule substSimultaneous_path)
  also have "substSimultaneous u p e = u"
    using u substSimultaneous_pass [of u "[]" p e] by simp
  finally have sim: "substSimultaneous ?t p e = [] @ ''{event}'' @ b"
    using whole by simp
  from seq sim replaced_length_neq [OF assms(3), of "[]" b]
  have "substToken ?t p e \<noteq> substSimultaneous ?t p e" by metis
  then show ?thesis by blast
qed

lemma touchesEvent_differs:
  assumes "touchesEvent p" "length e \<noteq> 7"
  shows "\<exists>t. substToken t p e \<noteq> substSimultaneous t p e"
proof -
  from assms(1) consider
      s where "s \<in> set (tails p)" "hasPrefix s ''{event}'' \<or> hasPrefix ''{event}'' s"
    | s where "s \<in> set (tails ''event}'')" "hasPrefix p s \<or> hasPrefix s p"
    unfolding touchesEvent_def list_ex_iff by blast
  then show ?thesis
  proof cases
    case 1
    then obtain a where "p = a @ s" "s \<noteq> []" by (auto simp: tails_iff)
    with 1(2) assms(2) show ?thesis by (intro touch_suffix [of p a s e]) auto
  next
    case 2
    with assms(2) show ?thesis by (intro touch_prefix [of s p e]) auto
  qed
qed

section \<open>Placeholder substitution: the claims\<close>

lemma substToken_occurrence:
  "substToken (pre @ ''{path}'' @ post) (a @ ''{event}'' @ b) event =
     replaceAll (replaceAll pre ''{path}'' (a @ ''{event}'' @ b) @ a) ''{event}'' event
       @ event
       @ replaceAll (b @ replaceAll post ''{path}'' (a @ ''{event}'' @ b)) ''{event}'' event"
proof -
  let ?p = "a @ ''{event}'' @ b"
  have "replaceAll (pre @ (CHR ''{'' # ''path}'') @ post) (CHR ''{'' # ''path}'') ?p =
        replaceAll pre (CHR ''{'' # ''path}'') ?p @ ?p @ replaceAll post (CHR ''{'' # ''path}'') ?p"
    by (rule replaceAll_split) simp
  then have "substToken (pre @ ''{path}'' @ post) ?p event =
        replaceAll ((replaceAll pre ''{path}'' ?p @ a) @ (CHR ''{'' # ''event}'')
                      @ (b @ replaceAll post ''{path}'' ?p)) (CHR ''{'' # ''event}'') event"
    by (simp add: substToken_def)
  also have "\<dots> = replaceAll (replaceAll pre ''{path}'' ?p @ a) (CHR ''{'' # ''event}'') event
        @ event @ replaceAll (b @ replaceAll post ''{path}'' ?p) (CHR ''{'' # ''event}'') event"
    by (rule replaceAll_split) simp
  finally show ?thesis by simp
qed

text \<open>
  C10.  Substitution is sequential: every token is rewritten by replacing
  \<open>{path}\<close> first and \<open>{event}\<close> in the outcome of that replacement.  Hence,
  whenever a token contains \<open>{path}\<close> and the triggering path contains the
  literal text \<open>{event}\<close>, that occurrence inside the substituted path is
  replaced by the event, too: the resolved token carries the event where the
  path had \<open>{event}\<close>.
\<close>

theorem replacePlaceholders_sequential:
  "replacePlaceholders cmd path event =
     map (\<lambda>part. replaceAll (replaceAll part ''{path}'' path) ''{event}'' event) cmd
   \<and> replacePlaceholders (before @ [pre @ ''{path}'' @ post] @ after) (a @ ''{event}'' @ b) event
         ! length before =
       replaceAll (replaceAll pre ''{path}'' (a @ ''{event}'' @ b) @ a) ''{event}'' event
         @ event
         @ replaceAll (b @ replaceAll post ''{path}'' (a @ ''{event}'' @ b)) ''{event}'' event"
proof
  show "replacePlaceholders cmd path event =
     map (\<lambda>part. replaceAll (replaceAll part ''{path}'' path) ''{event}'' event) cmd"
    using replacePlaceholders_map [of cmd path event] by (simp add: substToken_def)
next
  have "replacePlaceholders (before @ [pre @ ''{path}'' @ post] @ after) (a @ ''{event}'' @ b) event
         ! length before = substToken (pre @ ''{path}'' @ post) (a @ ''{event}'' @ b) event"
    by (simp add: replacePlaceholders_map nth_append)
  then show "replacePlaceholders (before @ [pre @ ''{path}'' @ post] @ after) (a @ ''{event}'' @ b) event
         ! length before =
       replaceAll (replaceAll pre ''{path}'' (a @ ''{event}'' @ b) @ a) ''{event}'' event
         @ event
         @ replaceAll (b @ replaceAll post ''{path}'' (a @ ''{event}'' @ b)) ''{event}'' event"
    by (simp only: substToken_occurrence)
qed

text \<open>
  C6, as the code has it.  The token count never changes, and every token is
  rewritten on its own in two passes: \<open>{path}\<close> becomes the path, then \<open>{event}\<close>
  in the outcome becomes the event.  Whenever the path cannot take part in an
  occurrence of \<open>{event}\<close> (\<open>touchesEvent\<close> fails), this is the one-pass reading:
  each \<open>{path}\<close> becomes the path, each \<open>{event}\<close> the event, both verbatim, all
  other characters kept.  That covers every path without \<open>{\<close> and \<open>}\<close> that has
  a character other than \<open>e\<close>, \<open>v\<close>, \<open>n\<close>, \<open>t\<close>.  The condition is sharp: for a
  path that can take part and an event whose length is not seven (as that of
  every operation label), some token is rewritten otherwise.  The two
  examples of the specification hold.
\<close>

theorem replacePlaceholders_verbatim:
  "length (replacePlaceholders cmd path event) = length cmd
   \<and> replacePlaceholders cmd path event =
        map (\<lambda>part. replaceAll (replaceAll part ''{path}'' path) ''{event}'' event) cmd
   \<and> (\<not> touchesEvent path \<longrightarrow>
        replacePlaceholders cmd path event = map (\<lambda>t. substSimultaneous t path event) cmd)
   \<and> (CHR ''{'' \<notin> set path \<and> CHR ''}'' \<notin> set path \<and> (\<exists>a\<in>set path. a \<notin> set ''event'') \<longrightarrow>
        replacePlaceholders cmd path event = map (\<lambda>t. substSimultaneous t path event) cmd)
   \<and> (touchesEvent path \<and> length event \<noteq> 7 \<longrightarrow>
        (\<exists>t. replacePlaceholders [t] path event \<noteq> map (\<lambda>t. substSimultaneous t path event) [t]))
   \<and> replacePlaceholders [''echo'', ''{path}''] ''/tmp/test.go'' ''WRITE''
        = [''echo'', ''/tmp/test.go'']
   \<and> replacePlaceholders [''process'', ''{path}'', ''--event={event}''] ''/tmp/test.go'' ''CREATE''
        = [''process'', ''/tmp/test.go'', ''--event=CREATE'']"
proof (intro conjI impI)
  show "length (replacePlaceholders cmd path event) = length cmd"
    by (simp add: replacePlaceholders_map)
next
  show "replacePlaceholders cmd path event =
        map (\<lambda>part. replaceAll (replaceAll part ''{path}'' path) ''{event}'' event) cmd"
    using replacePlaceholders_map [of cmd path event] by (simp add: substToken_def)
next
  assume "\<not> touchesEvent path"
  then have "\<And>t. substToken t path event = substSimultaneous t path event"
    by (rule substToken_simultaneous)
  then show "replacePlaceholders cmd path event = map (\<lambda>t. substSimultaneous t path event) cmd"
    by (simp add: replacePlaceholders_map)
next
  assume "CHR ''{'' \<notin> set path \<and> CHR ''}'' \<notin> set path \<and> (\<exists>a\<in>set path. a \<notin> set ''event'')"
  then have "\<not> touchesEvent path" by (intro braceless_not_touching) simp_all
  then have "\<And>t. substToken t path event = substSimultaneous t path event"
    by (rule substToken_simultaneous)
  then show "replacePlaceholders cmd path event = map (\<lambda>t. substSimultaneous t path event) cmd"
    by (simp add: replacePlaceholders_map)
next
  assume "touchesEvent path \<and> length event \<noteq> 7"
  then obtain t where "substToken t path event \<noteq> substSimultaneous t path event"
    using touchesEvent_differs [of path event] by blast
  then show "\<exists>t. replacePlaceholders [t] path event \<noteq> map (\<lambda>t. substSimultaneous t path event) [t]"
    by (auto simp: replacePlaceholders_map)
next
  show "replacePlaceholders [''echo'', ''{path}''] ''/tmp/test.go'' ''WRITE''
        = [''echo'', ''/tmp/test.go'']"
    by (simp add: replacePlaceholders_def substToken_def replaceAll_Cons)
next
  show "replacePlaceholders [''process'', ''{path}'', ''--event={event}''] ''/tmp/test.go'' ''CREATE''
        = [''process'', ''/tmp/test.go'', ''--event=CREATE'']"
    by (simp add: replacePlaceholders_def substToken_def replaceAll_Cons)
qed

theorem replacePlaceholders_verbatim_witness:
  "\<not> touchesEvent (''C:'' @ [CHR 0x5C] @ ''proj'' @ [CHR 0x5C] @ ''main.go'')
   \<and> replacePlaceholders [''make'', ''{event}:{path}'']
         (''C:'' @ [CHR 0x5C] @ ''proj'' @ [CHR 0x5C] @ ''main.go'') ''WRITE''
       = [''make'', ''WRITE:C:'' @ [CHR 0x5C] @ ''proj'' @ [CHR 0x5C] @ ''main.go'']
   \<and> \<not> touchesEvent ''/tmp/{x}.go''
   \<and> replacePlaceholders [''{{path}}''] ''/tmp/{x}.go'' ''WRITE'' = [''{/tmp/{x}.go}'']"
proof -
  have nt1: "\<not> touchesEvent (''C:'' @ [CHR 0x5C] @ ''proj'' @ [CHR 0x5C] @ ''main.go'')"
    by (simp add: touchesEvent_def)
  have nt2: "\<not> touchesEvent ''/tmp/{x}.go''"
    by (simp add: touchesEvent_def)
  have "replacePlaceholders [''make'', ''{event}:{path}'']
         (''C:'' @ [CHR 0x5C] @ ''proj'' @ [CHR 0x5C] @ ''main.go'') ''WRITE''
        = map (\<lambda>t. substSimultaneous t (''C:'' @ [CHR 0x5C] @ ''proj'' @ [CHR 0x5C] @ ''main.go'')
                  ''WRITE'') [''make'', ''{event}:{path}'']"
    using replacePlaceholders_verbatim
            [of "[''make'', ''{event}:{path}'']"
                "''C:'' @ [CHR 0x5C] @ ''proj'' @ [CHR 0x5C] @ ''main.go''" "''WRITE''",
             THEN conjunct2, THEN conjunct2, THEN conjunct1] nt1
    by (rule mp)
  then have r1: "replacePlaceholders [''make'', ''{event}:{path}'']
         (''C:'' @ [CHR 0x5C] @ ''proj'' @ [CHR 0x5C] @ ''main.go'') ''WRITE''
       = [''make'', ''WRITE:C:'' @ [CHR 0x5C] @ ''proj'' @ [CHR 0x5C] @ ''main.go'']"
    by (simp add: substSimultaneous.simps)
  have "replacePlaceholders [''{{path}}''] ''/tmp/{x}.go'' ''WRITE''
        = map (\<lambda>t. substSimultaneous t ''/tmp/{x}.go'' ''WRITE'') [''{{path}}'']"
    using replacePlaceholders_verbatim
            [of "[''{{path}}'']" "''/tmp/{x}.go''" "''WRITE''",
             THEN conjunct2, THEN conjunct2, THEN conjunct1] nt2
    by (rule mp)
  then have r2: "replacePlaceholders [''{{path}}''] ''/tmp/{x}.go'' ''WRITE'' = [''{/tmp/{x}.go}'']"
    by (simp add: substSimultaneous.simps)
  from nt1 r1 nt2 r2 show ?thesis by (intro conjI)
qed

text \<open>
  C6 as stated fails when the path itself contains \<open>{event}\<close>: the path is not
  inserted verbatim, its \<open>{event}\<close> is rewritten as well.
\<close>

theorem replacePlaceholders_verbatim_counterexample:
  "replacePlaceholders [''{path}''] ''/tmp/{event}'' ''WRITE'' = [''/tmp/WRITE'']
   \<and> map (\<lambda>t. substSimultaneous t ''/tmp/{event}'' ''WRITE'') [''{path}''] = [''/tmp/{event}'']
   \<and> replacePlaceholders [''{path}''] ''/tmp/{event}'' ''WRITE''
       \<noteq> map (\<lambda>t. substSimultaneous t ''/tmp/{event}'' ''WRITE'') [''{path}'']"
  by (simp add: replacePlaceholders_def substToken_def replaceAll_Cons substSimultaneous.simps)

section \<open>Facts about the runner\<close>

lemma contains_single: "contains s [c] \<longleftrightarrow> c \<in> set s"
  by (induction s) auto

lemma contains_hd: "contains s sub \<Longrightarrow> sub \<noteq> [] \<Longrightarrow> hd sub \<in> set s"
  by (induction s) (auto simp: hasPrefix_iff Cons_eq_append_conv)

lemma containsAnyOf_shellOperators:
  "containsAnyOf s shellOperators \<longleftrightarrow> (\<exists>c\<in>set s. c \<in> set ''|><&'')"
proof
  assume "containsAnyOf s shellOperators"
  then consider "contains s ''|''" | "contains s ''>''" | "contains s ''<''" | "contains s ''>>''"
    | "contains s ''&&''" | "contains s ''||''" | "contains s ''&''"
    by (auto simp: shellOperators_def split: if_splits)
  then show "\<exists>c\<in>set s. c \<in> set ''|><&''"
    by cases (use contains_hd in force)+
next
  assume "\<exists>c\<in>set s. c \<in> set ''|><&''"
  then have "contains s ''|'' \<or> contains s ''>'' \<or> contains s ''<'' \<or> contains s ''&''"
    by (auto simp: contains_single)
  then show "containsAnyOf s shellOperators"
    by (auto simp: shellOperators_def)
qed

lemma needsShell_iff:
  "needsShell cmd \<longleftrightarrow>
     cmd \<noteq> [] \<and> (toLower (hd cmd) \<in> {''sh'', ''bash'', ''powershell'', ''pwsh''}
                 \<or> (\<exists>c\<in>set (join cmd '' ''). c \<in> {CHR ''|'', CHR ''>'', CHR ''<'', CHR ''&''}))"
  using containsAnyOf_shellOperators [of "join cmd '' ''"]
  by (auto simp: needsShell_def Let_def shellCommands_def)

lemma executeCommand_empty:
  "replacePlaceholders (Cmd cmd) p e = [] \<Longrightarrow>
   executeCommand h False os cmd p e =
     (\<lparr>Command = [], ExitCode = - 1, Duration = idle os, Error = Some ''empty command''\<rparr>, [])"
  by (simp add: executeCommand_def Let_def)

lemma executeCommand_error:
  "ExitCode (fst (executeCommand h dry os cmd p e)) \<noteq> 0 \<Longrightarrow>
   Error (fst (executeCommand h dry os cmd p e)) \<noteq> None"
  by (auto simp: executeCommand_def Let_def split: if_splits prod.splits proc_outcome.splits)

lemma attempted_Cons_fail: "ExitCode r \<noteq> 0 \<Longrightarrow> attempted (r # rs) = 1"
  by (simp add: attempted_def)

lemma attempted_Cons_ok: "ExitCode r = 0 \<Longrightarrow> attempted (r # rs) = Suc (attempted rs)"
  by (simp add: attempted_def)

lemma runSequential_outcomes:
  "runSequential h dry os i cmds p e acc =
     (fst acc @ map fst (take (attempted (map fst (outcomes h dry os i cmds p e)))
                              (outcomes h dry os i cmds p e)),
      snd acc @ concat (map snd (take (attempted (map fst (outcomes h dry os i cmds p e)))
                              (outcomes h dry os i cmds p e))))"
proof (induction cmds arbitrary: i acc)
  case Nil
  then show ?case by (simp add: attempted_def)
next
  case (Cons c cs)
  obtain r fx where ex: "executeCommand h dry (os i) c p e = (r, fx)"
    by (cases "executeCommand h dry (os i) c p e")
  show ?case
  proof (cases "ExitCode r = 0")
    case True
    then show ?thesis
      using ex Cons.IH [of "Suc i" "(fst acc @ [r], snd acc @ fx)"]
      by (simp add: attempted_Cons_ok)
  next
    case False
    moreover from False have "Error r \<noteq> None"
      using executeCommand_error [of h dry "os i" c p e] ex by simp
    ultimately show ?thesis
      using ex by (simp add: attempted_Cons_fail)
  qed
qed

lemma outcomes_length [simp]: "length (outcomes h dry os i cmds p e) = length cmds"
  by (induction cmds arbitrary: i) auto

lemma outcomes_nth:
  "j < length cmds \<Longrightarrow>
   outcomes h dry os i cmds p e ! j = executeCommand h dry (os (i + j)) (cmds ! j) p e"
proof (induction cmds arbitrary: i j)
  case Nil
  then show ?case by simp
next
  case (Cons c cs)
  then show ?case by (cases j) auto
qed

lemma attempted_le: "attempted rs \<le> length rs"
  by (simp add: attempted_def)

lemma attempted_before:
  assumes "Suc j < attempted rs"
  shows "ExitCode (rs ! j) = 0"
proof -
  from assms have "j < length (takeWhile (\<lambda>r. ExitCode r = 0) rs)"
    by (simp add: attempted_def)
  then show ?thesis
    using nth_mem [of j "takeWhile (\<lambda>r. ExitCode r = 0) rs"]
    by (auto simp: takeWhile_nth dest: set_takeWhileD)
qed

lemma attempted_stop:
  assumes "attempted rs < length rs"
  shows "ExitCode (rs ! (attempted rs - 1)) \<noteq> 0"
proof -
  from assms have "length (takeWhile (\<lambda>r. ExitCode r = 0) rs) < length rs"
    and "attempted rs - 1 = length (takeWhile (\<lambda>r. ExitCode r = 0) rs)"
    by (auto simp: attempted_def min_def split: if_splits)
  then show ?thesis
    using nth_length_takeWhile [of "\<lambda>r. ExitCode r = 0" rs] by simp
qed

section \<open>The command executor: the claims\<close>

text \<open>
  C7.  When placeholder substitution leaves no token and dry-run mode is off,
  \<open>executeCommand\<close> returns at once with exit code \<open>-1\<close> and the error
  \<open>empty command\<close>, and \<open>command.Start()\<close> is never called: no process is
  spawned.
\<close>

theorem executeCommand_empty_command:
  "\<not> dry \<Longrightarrow> replacePlaceholders (Cmd cmd) eventPath eventType = [] \<Longrightarrow>
   executeCommand h dry os cmd eventPath eventType =
     (\<lparr>Command = [], ExitCode = - 1, Duration = idle os, Error = Some ''empty command''\<rparr>, [])"
  by (simp add: executeCommand_def Let_def)

theorem executeCommand_empty_command_witness:
  "\<not> False
   \<and> replacePlaceholders (Cmd \<lparr>Cmd = [], Run = ''sequential'', Timeout = ''5s''\<rparr>)
         ''/tmp/test.go'' ''WRITE'' = []
   \<and> executeCommand
         \<lparr>goosWindows = False, parseDuration = (\<lambda>s. None), volumeNameLen = (\<lambda>p. 0),
          fmatch = (\<lambda>p n. False)\<rparr>
         False \<lparr>launch = (\<lambda>argv t. (WaitOk, 7)), idle = 1\<rparr>
         \<lparr>Cmd = [], Run = ''sequential'', Timeout = ''5s''\<rparr> ''/tmp/test.go'' ''WRITE''
      = (\<lparr>Command = [], ExitCode = - 1, Duration = 1, Error = Some ''empty command''\<rparr>, [])"
  using executeCommand_empty_command
    [of False "\<lparr>Cmd = [], Run = ''sequential'', Timeout = ''5s''\<rparr>" "''/tmp/test.go''" "''WRITE''"
        "\<lparr>goosWindows = False, parseDuration = (\<lambda>s. None), volumeNameLen = (\<lambda>p. 0),
          fmatch = (\<lambda>p n. False)\<rparr>"
        "\<lparr>launch = (\<lambda>argv t. (WaitOk, 7)), idle = 1\<rparr>"]
  by (simp add: replacePlaceholders_def)

text \<open>
  C8, as the code has it.  \<open>needsShell\<close> holds exactly when the token list is
  not empty and either its first token, lowered, is one of \<open>sh\<close>, \<open>bash\<close>,
  \<open>powershell\<close>, \<open>pwsh\<close>, or the tokens joined by spaces contain one of the
  characters \<open>|\<close>, \<open>>\<close>, \<open><\<close>, \<open>&\<close> (which is what containing one of the seven
  listed operators amounts to).  It fails on the empty list.  On Windows, when
  it holds for the resolved tokens, the only process ever started is
  \<open>cmd.exe /C\<close> with the tokens joined by spaces as one argument, and it is
  started unless a pipe cannot be set up.
\<close>

theorem needsShell_characterisation:
  "(needsShell cmd \<longleftrightarrow>
      cmd \<noteq> [] \<and> (toLower (hd cmd) \<in> {''sh'', ''bash'', ''powershell'', ''pwsh''}
                  \<or> (\<exists>c\<in>set (join cmd '' ''). c \<in> {CHR ''|'', CHR ''>'', CHR ''<'', CHR ''&''})))
   \<and> \<not> needsShell []
   \<and> (goosWindows h \<and> needsShell (replacePlaceholders (Cmd c) eventPath eventType) \<longrightarrow>
        (let toks = replacePlaceholders (Cmd c) eventPath eventType;
             shell = Spawn [''cmd.exe'', ''/C'', join toks '' ''] (commandTimeout h c);
             fx = snd (executeCommand h False os c eventPath eventType)
         in (\<forall>x\<in>set fx. x = shell) \<and>
            (fst (launch os [''cmd.exe'', ''/C'', join toks '' ''] (commandTimeout h c))
               \<notin> range StdoutPipeError \<union> range StderrPipeError \<longrightarrow> fx = [shell])))"
proof (intro conjI impI)
  show "needsShell cmd \<longleftrightarrow>
      cmd \<noteq> [] \<and> (toLower (hd cmd) \<in> {''sh'', ''bash'', ''powershell'', ''pwsh''}
                  \<or> (\<exists>c\<in>set (join cmd '' ''). c \<in> {CHR ''|'', CHR ''>'', CHR ''<'', CHR ''&''}))"
    by (rule needsShell_iff)
next
  show "\<not> needsShell []" by (simp add: needsShell_def)
next
  assume a: "goosWindows h \<and> needsShell (replacePlaceholders (Cmd c) eventPath eventType)"
  then have ne: "replacePlaceholders (Cmd c) eventPath eventType \<noteq> []"
    by (auto simp: needsShell_def)
  obtain oc d where l: "launch os [''cmd.exe'', ''/C'', join (replacePlaceholders (Cmd c) eventPath eventType) '' '']
       (commandTimeout h c) = (oc, d)" by (cases "launch os [''cmd.exe'', ''/C'', join (replacePlaceholders (Cmd c) eventPath eventType) '' '']
       (commandTimeout h c)")
  show "let toks = replacePlaceholders (Cmd c) eventPath eventType;
             shell = Spawn [''cmd.exe'', ''/C'', join toks '' ''] (commandTimeout h c);
             fx = snd (executeCommand h False os c eventPath eventType)
         in (\<forall>x\<in>set fx. x = shell) \<and>
            (fst (launch os [''cmd.exe'', ''/C'', join toks '' ''] (commandTimeout h c))
               \<notin> range StdoutPipeError \<union> range StderrPipeError \<longrightarrow> fx = [shell])"
    using a ne l by (cases oc) (auto simp: executeCommand_def Let_def)
qed

theorem needsShell_characterisation_witness:
  "goosWindows \<lparr>goosWindows = True, parseDuration = (\<lambda>s. None), volumeNameLen = (\<lambda>p. 0),
                 fmatch = (\<lambda>p n. False)\<rparr>
   \<and> needsShell (replacePlaceholders (Cmd \<lparr>Cmd = [''type'', ''{path}'', ''>'', ''out.txt''], Run = [], Timeout = []\<rparr>)
                   ''a.go'' ''WRITE'')
   \<and> snd (executeCommand \<lparr>goosWindows = True, parseDuration = (\<lambda>s. None), volumeNameLen = (\<lambda>p. 0),
                 fmatch = (\<lambda>p n. False)\<rparr> False \<lparr>launch = (\<lambda>argv t. (WaitOk, 7)), idle = 0\<rparr>
              \<lparr>Cmd = [''type'', ''{path}'', ''>'', ''out.txt''], Run = [], Timeout = []\<rparr> ''a.go'' ''WRITE'')
       = [Spawn [''cmd.exe'', ''/C'', ''type a.go > out.txt''] 60000000000]"
proof -
  let ?h = "\<lparr>goosWindows = True, parseDuration = (\<lambda>s. None), volumeNameLen = (\<lambda>p. 0),
                 fmatch = (\<lambda>p n. False)\<rparr>"
  let ?c = "\<lparr>Cmd = [''type'', ''{path}'', ''>'', ''out.txt''], Run = [], Timeout = []\<rparr>"
  let ?os = "\<lparr>launch = (\<lambda>argv t. (WaitOk, 7)), idle = 0\<rparr>"
  have toks: "replacePlaceholders (Cmd ?c) ''a.go'' ''WRITE'' = [''type'', ''a.go'', ''>'', ''out.txt'']"
    by (simp add: replacePlaceholders_def substToken_def replaceAll_Cons)
  have ns: "needsShell [''type'', ''a.go'', ''>'', ''out.txt'']"
    by (simp add: needsShell_def Let_def shellCommands_def shellOperators_def toLower_def toLowerChar_def)
  show ?thesis
    using needsShell_characterisation [of "[]" ?h ?c "''a.go''" "''WRITE''" ?os] toks ns
    by (auto simp: Let_def commandTimeout_def defaultTimeout_def)
qed

text \<open>
  C8 as stated also counts the Windows command shell among the shell names;
  the code does not: a command that starts with \<open>cmd.exe\<close> or \<open>cmd\<close> and has no
  operator character is run directly.
\<close>

theorem needsShell_characterisation_counterexample:
  "\<not> needsShell [''cmd.exe'', ''/C'', ''dir''] \<and> \<not> needsShell [''cmd'', ''/C'', ''dir'']"
  by (simp add: needsShell_def Let_def shellCommands_def shellOperators_def toLower_def toLowerChar_def)

section \<open>Sequential mode: the claim\<close>

text \<open>
  C2.  In sequential mode \<open>Run\<close> returns the results of the first \<open>k\<close> commands
  in list order, where \<open>k\<close> counts the commands up to and including the first
  whose exit code is not zero; the processes started are those of these \<open>k\<close>
  commands and no others.  Each result is the one \<open>executeCommand\<close> gives for
  the command at that index, every result before the last has exit code zero,
  and when the chain stops early the last one has a nonzero exit code.  For
  the list \<open>[A, B]\<close> with \<open>A\<close> exiting with code 1 the result list has length
  one and its entry has exit code 1.
\<close>

theorem Run_sequential_short_circuit:
  assumes "sequential r"
  shows "let cmds = Commands (OnChange (cfg r));
             outs = outcomes h (dryRun r) os 0 cmds eventPath eventType;
             k = attempted (map fst outs)
         in Run r h os sched cancelled eventPath eventType
              = Returned (map fst (take k outs), concat (map snd (take k outs)))
          \<and> k \<le> length cmds
          \<and> (\<forall>j<length cmds. outs ! j = executeCommand h (dryRun r) (os j) (cmds ! j) eventPath eventType)
          \<and> (\<forall>j. Suc j < k \<longrightarrow> ExitCode (fst (outs ! j)) = 0)
          \<and> (k < length cmds \<longrightarrow> ExitCode (fst (outs ! (k - 1))) \<noteq> 0)
          \<and> (\<forall>A B. cmds = [A, B] \<and> ExitCode (fst (executeCommand h (dryRun r) (os 0) A eventPath eventType)) = 1
                \<longrightarrow> (\<exists>x fx. Run r h os sched cancelled eventPath eventType = Returned ([x], fx)
                           \<and> ExitCode x = 1))"
proof -
  define cmds where "cmds = Commands (OnChange (cfg r))"
  define outs where "outs = outcomes h (dryRun r) os 0 cmds eventPath eventType"
  define k where "k = attempted (map fst outs)"
  have run: "Run r h os sched cancelled eventPath eventType
              = Returned (map fst (take k outs), concat (map snd (take k outs)))"
  proof (cases "cmds = []")
    case True
    then show ?thesis
      by (simp add: Run_def Let_def cmds_def [symmetric] outs_def k_def attempted_def)
  next
    case False
    then show ?thesis
      using assms runSequential_outcomes [of h "dryRun r" os 0 cmds eventPath eventType "([], [])"]
      by (simp add: Run_def Let_def cmds_def [symmetric] outs_def k_def)
  qed
  have len: "length outs = length cmds" by (simp add: outs_def)
  have kle: "k \<le> length cmds" using attempted_le [of "map fst outs"] len by (simp add: k_def)
  have nth: "\<forall>j<length cmds. outs ! j = executeCommand h (dryRun r) (os j) (cmds ! j) eventPath eventType"
    using outcomes_nth [of _ cmds h "dryRun r" os 0 eventPath eventType] by (simp add: outs_def)
  have before: "\<forall>j. Suc j < k \<longrightarrow> ExitCode (fst (outs ! j)) = 0"
  proof (intro allI impI)
    fix j assume j: "Suc j < k"
    then have "ExitCode (map fst outs ! j) = 0" unfolding k_def by (rule attempted_before)
    moreover have "j < length outs" using j kle len by simp
    ultimately show "ExitCode (fst (outs ! j)) = 0" by simp
  qed
  have stop: "k < length cmds \<longrightarrow> ExitCode (fst (outs ! (k - 1))) \<noteq> 0"
  proof
    assume "k < length cmds"
    then have "attempted (map fst outs) < length (map fst outs)" using len by (simp add: k_def)
    then have "ExitCode (map fst outs ! (attempted (map fst outs) - 1)) \<noteq> 0" by (rule attempted_stop)
    moreover have "k - 1 < length outs" using \<open>k < length cmds\<close> len by simp
    ultimately show "ExitCode (fst (outs ! (k - 1))) \<noteq> 0" by (simp add: k_def)
  qed
  have ex: "\<forall>A B. cmds = [A, B] \<and> ExitCode (fst (executeCommand h (dryRun r) (os 0) A eventPath eventType)) = 1
                \<longrightarrow> (\<exists>x fx. Run r h os sched cancelled eventPath eventType = Returned ([x], fx)
                           \<and> ExitCode x = 1)"
  proof (intro allI impI)
    fix A B
    assume a: "cmds = [A, B] \<and> ExitCode (fst (executeCommand h (dryRun r) (os 0) A eventPath eventType)) = 1"
    then have "k = 1" by (simp add: k_def outs_def attempted_def)
    with a run show "\<exists>x fx. Run r h os sched cancelled eventPath eventType = Returned ([x], fx)
                           \<and> ExitCode x = 1"
      by (simp add: outs_def)
  qed
  from run kle nth before stop ex show ?thesis
    unfolding Let_def cmds_def [symmetric] outs_def [symmetric] k_def [symmetric] by blast
qed

theorem Run_sequential_short_circuit_witness:
  "sequential \<lparr>cfg = \<lparr>Watch = [], OnChange = \<lparr>Commands =
        [\<lparr>Cmd = [''false''], Run = [], Timeout = []\<rparr>,
         \<lparr>Cmd = [''echo'', ''second''], Run = [], Timeout = []\<rparr>]\<rparr>,
        Debounce = ''100ms'', MaxConcurrency = 1\<rparr>, sequential = True, dryRun = False\<rparr>
   \<and> Run \<lparr>cfg = \<lparr>Watch = [], OnChange = \<lparr>Commands =
        [\<lparr>Cmd = [''false''], Run = [], Timeout = []\<rparr>,
         \<lparr>Cmd = [''echo'', ''second''], Run = [], Timeout = []\<rparr>]\<rparr>,
        Debounce = ''100ms'', MaxConcurrency = 1\<rparr>, sequential = True, dryRun = False\<rparr>
       \<lparr>goosWindows = False, parseDuration = (\<lambda>s. None), volumeNameLen = (\<lambda>p. 0),
        fmatch = (\<lambda>p n. False)\<rparr>
       (\<lambda>i. \<lparr>launch = (\<lambda>argv t. if argv = [''false''] then (WaitExitError 1 ''exit status 1'', 3)
                                  else (WaitOk, 2)), idle = 0\<rparr>)
       [] False ''/tmp/test.go'' ''WRITE''
     = Returned ([\<lparr>Command = [''false''], ExitCode = 1, Duration = 3,
                    Error = Some ''exit status 1''\<rparr>],
                 [Spawn [''false''] 60000000000])"
  using Run_sequential_short_circuit
    [of "\<lparr>cfg = \<lparr>Watch = [], OnChange = \<lparr>Commands =
        [\<lparr>Cmd = [''false''], Run = [], Timeout = []\<rparr>,
         \<lparr>Cmd = [''echo'', ''second''], Run = [], Timeout = []\<rparr>]\<rparr>,
        Debounce = ''100ms'', MaxConcurrency = 1\<rparr>, sequential = True, dryRun = False\<rparr>"
        "\<lparr>goosWindows = False, parseDuration = (\<lambda>s. None), volumeNameLen = (\<lambda>p. 0),
        fmatch = (\<lambda>p n. False)\<rparr>"
        "(\<lambda>i. \<lparr>launch = (\<lambda>argv t. if argv = [''false''] then (WaitExitError 1 ''exit status 1'', 3)
                                  else (WaitOk, 2)), idle = 0\<rparr>)"
        "''/tmp/test.go''" "''WRITE''" "[]" False]
  by (simp add: Let_def attempted_def executeCommand_def replacePlaceholders_def substToken_def
        replaceAll_Cons commandTimeout_def defaultTimeout_def)

section \<open>Facts about the interleavings of parallel mode\<close>

lemma filter_update_count:
  "i < length xs \<Longrightarrow>
   length (filter P (xs[i := y])) + (if P (xs ! i) then 1 else 0)
     = length (filter P xs) + (if P y then 1 else 0)"
proof (induction xs arbitrary: i)
  case Nil
  then show ?case by simp
next
  case (Cons x xs)
  then show ?case by (cases i) auto
qed

lemma runActions_append:
  "runActions maxc exec (as @ bs) s =
     (case runActions maxc exec as s of None \<Rightarrow> None | Some s' \<Rightarrow> runActions maxc exec bs s')"
  by (induction as arbitrary: s) (auto split: option.splits)

lemma pinv_initial: "pinv maxc exec n (initial n c)"
  by (simp add: pinv_def initial_def holding_def)

lemma pinv_Acquire:
  assumes "pinv maxc exec n s" "pstep maxc exec (Acquire i) s = Some s'"
  shows "pinv maxc exec n s'"
proof -
  from assms(2) have i: "i < length (gos s)" and w: "gos s ! i = Waiting" and c: "int (sem s) < maxc"
    and s': "s' = s\<lparr>sem := Suc (sem s), gos := (gos s)[i := Running]\<rparr>"
    by (auto simp: pstep_def split: if_splits)
  have "length (filter holding ((gos s)[i := Running])) = Suc (length (filter holding (gos s)))"
    using filter_update_count [OF i, of holding Running] w by (simp add: holding_def)
  with assms(1) i w c show ?thesis
    unfolding s' pinv_def by (auto simp: nth_list_update)
qed

lemma pinv_SeeDone:
  assumes "pinv maxc exec n s" "pstep maxc exec (SeeDone i) s = Some s'"
  shows "pinv maxc exec n s'"
proof -
  from assms(2) have i: "i < length (gos s)" and w: "gos s ! i = Waiting" and c: "ctxDone s"
    and s': "s' = s\<lparr>gos := (gos s)[i := Abandoned]\<rparr>"
    by (auto simp: pstep_def split: if_splits)
  have "length (filter holding ((gos s)[i := Abandoned])) = length (filter holding (gos s))"
    using filter_update_count [OF i, of holding Abandoned] w by (simp add: holding_def)
  with assms(1) i w c show ?thesis
    unfolding s' pinv_def by (auto simp: nth_list_update)
qed

lemma pinv_Return:
  assumes "pinv maxc exec n s" "pstep maxc exec (Return i) s = Some s'"
  shows "pinv maxc exec n s'"
proof -
  from assms(2) have i: "i < length (gos s)" and w: "gos s ! i = Running"
    and s': "s' = s\<lparr>results := (results s)[i := fst (exec i)],
                        effects := effects s @ snd (exec i),
                        gos := (gos s)[i := Releasing]\<rparr>"
    by (auto simp: pstep_def split: if_splits)
  have "length (filter holding ((gos s)[i := Releasing])) = length (filter holding (gos s))"
    using filter_update_count [OF i, of holding Releasing] w by (simp add: holding_def)
  with assms(1) i w show ?thesis
    unfolding s' pinv_def by (auto simp: nth_list_update)
qed

lemma pinv_Release:
  assumes "pinv maxc exec n s" "pstep maxc exec (Release i) s = Some s'"
  shows "pinv maxc exec n s'"
proof -
  from assms(2) have i: "i < length (gos s)" and w: "gos s ! i = Releasing" and p: "0 < sem s"
    and s': "s' = s\<lparr>sem := sem s - 1, gos := (gos s)[i := Finished]\<rparr>"
    by (auto simp: pstep_def split: if_splits)
  have "Suc (length (filter holding ((gos s)[i := Finished]))) = length (filter holding (gos s))"
    using filter_update_count [OF i, of holding Finished] w by (simp add: holding_def)
  with assms(1) i w p show ?thesis
    unfolding s' pinv_def by (auto simp: nth_list_update)
qed

lemma pinv_Cancel:
  assumes "pinv maxc exec n s" "pstep maxc exec Cancel s = Some s'"
  shows "pinv maxc exec n s'"
  using assms by (auto simp: pstep_def pinv_def)

lemma pinv_step:
  assumes "pinv maxc exec n s" "pstep maxc exec a s = Some s'"
  shows "pinv maxc exec n s'"
  using assms
  by (cases a) (auto intro: pinv_Acquire pinv_SeeDone pinv_Return pinv_Release pinv_Cancel)

lemma pinv_run:
  "pinv maxc exec n s \<Longrightarrow> runActions maxc exec sched s = Some s' \<Longrightarrow> pinv maxc exec n s'"
  by (induction sched arbitrary: s) (auto split: option.splits intro: pinv_step)

lemma running_le_holding:
  "length (filter (\<lambda>g. g = Running) xs) \<le> length (filter holding xs)"
  by (induction xs) (auto simp: holding_def)

lemma executing_le_sem: "pinv maxc exec n s \<Longrightarrow> executing s \<le> sem s"
  using running_le_holding [of "gos s"] by (simp add: pinv_def executing_def)

lemma pstep_history:
  assumes "pstep maxc exec a s = Some s'"
  shows "length (gos s') = length (gos s)
         \<and> (\<forall>i<length (gos s). gos s' ! i = Abandoned \<longleftrightarrow> gos s ! i = Abandoned \<or> a = SeeDone i)
         \<and> (ctxDone s' \<longleftrightarrow> ctxDone s \<or> a = Cancel)"
  using assms
  by (cases a) (auto simp: pstep_def nth_list_update split: if_splits)

lemma runActions_history:
  assumes "runActions maxc exec sched s = Some s'"
  shows "length (gos s') = length (gos s)
         \<and> (\<forall>i<length (gos s). gos s' ! i = Abandoned \<longleftrightarrow> gos s ! i = Abandoned \<or> SeeDone i \<in> set sched)
         \<and> (ctxDone s' \<longleftrightarrow> ctxDone s \<or> Cancel \<in> set sched)"
  using assms
proof (induction sched arbitrary: s)
  case Nil
  then show ?case by simp
next
  case (Cons a as)
  then obtain s1 where s1: "pstep maxc exec a s = Some s1" and r: "runActions maxc exec as s1 = Some s'"
    by (auto split: option.splits)
  from pstep_history [OF s1] Cons.IH [OF r] show ?case by auto
qed

lemma allReturned_nth:
  "allReturned s \<Longrightarrow> i < length (gos s) \<Longrightarrow> gos s ! i = Finished \<or> gos s ! i = Abandoned"
  by (simp add: allReturned_def list_all_length)

lemma executeParallel_Returned:
  assumes "executeParallel h dry maxc os sched cancelled cmds p e = Returned x"
  obtains s where
    "runActions maxc (\<lambda>i. executeCommand h dry (os i) (cmds ! i) p e) sched
        (initial (length cmds) cancelled) = Some s"
    "allReturned s" "x = (results s, effects s)"
  using assms by (auto simp: executeParallel_def split: if_splits option.splits)

section \<open>Parallel mode: the claims\<close>

lemma Run_parallel_slots:
  assumes "\<not> sequential r"
    and "Run r h os sched cancelled eventPath eventType = Returned (rs, fx)"
  shows "length rs = length (Commands (OnChange (cfg r)))
         \<and> (\<forall>i<length (Commands (OnChange (cfg r))).
               rs ! i = (if SeeDone i \<in> set sched then zeroResult
                         else fst (executeCommand h (dryRun r) (os i)
                                     (Commands (OnChange (cfg r)) ! i) eventPath eventType)))
         \<and> (\<forall>i<length (Commands (OnChange (cfg r))).
               SeeDone i \<in> set sched \<longrightarrow> cancelled \<or> Cancel \<in> set sched)"
proof (cases "Commands (OnChange (cfg r)) = []")
  case True
  with assms show ?thesis by (simp add: Run_def)
next
  case False
  define cmds where "cmds = Commands (OnChange (cfg r))"
  define exec where "exec = (\<lambda>i. executeCommand h (dryRun r) (os i) (cmds ! i) eventPath eventType)"
  from assms False
  have "executeParallel h (dryRun r) (MaxConcurrency (cfg r)) os sched cancelled cmds
          eventPath eventType = Returned (rs, fx)"
    by (simp add: Run_def Let_def cmds_def)
  then obtain s where run: "runActions (MaxConcurrency (cfg r)) exec sched (initial (length cmds) cancelled) = Some s"
    and ret: "allReturned s" and rs: "rs = results s"
    unfolding exec_def by (elim executeParallel_Returned) auto
  have inv: "pinv (MaxConcurrency (cfg r)) exec (length cmds) s"
    using pinv_initial run by (rule pinv_run)
  have hist: "\<forall>i<length cmds. gos s ! i = Abandoned \<longleftrightarrow> SeeDone i \<in> set sched"
    and ctx: "ctxDone s \<longleftrightarrow> cancelled \<or> Cancel \<in> set sched"
    using runActions_history [OF run] by (simp_all add: initial_def)
  have len: "length rs = length cmds" using inv rs by (simp add: pinv_def)
  have slots: "\<forall>i<length cmds. rs ! i = (if SeeDone i \<in> set sched then zeroResult else fst (exec i))"
  proof (intro allI impI)
    fix i assume i: "i < length cmds"
    then have "gos s ! i = Finished \<or> gos s ! i = Abandoned"
      using ret inv by (intro allReturned_nth) (simp_all add: pinv_def)
    then show "rs ! i = (if SeeDone i \<in> set sched then zeroResult else fst (exec i))"
      using inv hist i rs by (auto simp: pinv_def)
  qed
  have canc: "\<forall>i<length cmds. SeeDone i \<in> set sched \<longrightarrow> cancelled \<or> Cancel \<in> set sched"
    using inv hist ctx by (auto simp: pinv_def)
  from len slots canc show ?thesis
    unfolding cmds_def [symmetric] exec_def by blast
qed

lemma sum_update:
  "i < length xs \<Longrightarrow>
   sum_list (map f (xs[i := y])) + f (xs ! i) = sum_list (map f xs) + (f y :: nat)"
proof (induction xs arbitrary: i)
  case Nil
  then show ?case by simp
next
  case (Cons x xs)
  then show ?case by (cases i) auto
qed

lemma filter_pos: "i < length xs \<Longrightarrow> P (xs ! i) \<Longrightarrow> 0 < length (filter P xs)"
  by (metis filter_empty_conv length_greater_0_conv nth_mem)

lemma not_allReturned:
  assumes "\<not> allReturned s"
  obtains i where "i < length (gos s)" "gos s ! i = Waiting \<or> gos s ! i = Running \<or> gos s ! i = Releasing"
proof -
  from assms obtain g where "g \<in> set (gos s)" "g \<noteq> Finished" "g \<noteq> Abandoned"
    by (auto simp: allReturned_def list_all_iff)
  then obtain i where "i < length (gos s)" "gos s ! i = g" by (auto simp: in_set_conv_nth)
  with \<open>g \<noteq> Finished\<close> \<open>g \<noteq> Abandoned\<close> that show ?thesis by (cases g) auto
qed

lemma progress:
  assumes "pinv maxc exec n s" "1 \<le> maxc" "\<not> allReturned s"
  shows "\<exists>a s'. a \<noteq> Cancel \<and> a \<notin> range SeeDone \<and> pstep maxc exec a s = Some s'
                \<and> sum_list (map weight (gos s')) < sum_list (map weight (gos s))"
proof -
  have sem: "sem s = length (filter holding (gos s))" using assms(1) by (simp add: pinv_def)
  consider (rel) i where "i < length (gos s)" "gos s ! i = Releasing"
    | (run) i where "i < length (gos s)" "gos s ! i = Running"
    | (wait) i where "i < length (gos s)" "gos s ! i = Waiting"
        "\<forall>j<length (gos s). gos s ! j \<noteq> Running \<and> gos s ! j \<noteq> Releasing"
    using not_allReturned [OF assms(3)] by metis
  then show ?thesis
  proof cases
    case rel
    then have "0 < sem s" using sem filter_pos [of i "gos s" holding] by (simp add: holding_def)
    with rel have st: "pstep maxc exec (Release i) s
                = Some (s\<lparr>sem := sem s - 1, gos := (gos s)[i := Finished]\<rparr>)"
      by (simp add: pstep_def)
    have "sum_list (map weight ((gos s)[i := Finished])) < sum_list (map weight (gos s))"
      using sum_update [OF rel(1), of weight Finished] rel(2) by simp
    with st show ?thesis by (intro exI [of _ "Release i"]) auto
  next
    case run
    then have st: "pstep maxc exec (Return i) s
                = Some (s\<lparr>results := (results s)[i := fst (exec i)],
                          effects := effects s @ snd (exec i),
                          gos := (gos s)[i := Releasing]\<rparr>)"
      by (simp add: pstep_def)
    have "sum_list (map weight ((gos s)[i := Releasing])) < sum_list (map weight (gos s))"
      using sum_update [OF run(1), of weight Releasing] run(2) by simp
    with st show ?thesis by (intro exI [of _ "Return i"]) auto
  next
    case wait
    have "filter holding (gos s) = []"
      using wait(3) by (auto simp: filter_empty_conv holding_def in_set_conv_nth)
    with sem have "sem s = 0" by simp
    with wait assms(2) have st: "pstep maxc exec (Acquire i) s
                = Some (s\<lparr>sem := Suc (sem s), gos := (gos s)[i := Running]\<rparr>)"
      by (simp add: pstep_def)
    have "sum_list (map weight ((gos s)[i := Running])) < sum_list (map weight (gos s))"
      using sum_update [OF wait(1), of weight Running] wait(2) by simp
    with st show ?thesis by (intro exI [of _ "Acquire i"]) auto
  qed
qed

lemma completion:
  assumes "1 \<le> maxc"
  shows "pinv maxc exec n s \<Longrightarrow>
         \<exists>rest s'. (\<forall>a\<in>set rest. a \<noteq> Cancel \<and> a \<notin> range SeeDone)
                  \<and> runActions maxc exec rest s = Some s' \<and> allReturned s'"
proof (induction "sum_list (map weight (gos s))" arbitrary: s rule: less_induct)
  case less
  show ?case
  proof (cases "allReturned s")
    case True
    then have "(\<forall>a\<in>set []. a \<noteq> Cancel \<and> a \<notin> range SeeDone)
               \<and> runActions maxc exec [] s = Some s \<and> allReturned s" by simp
    then show ?thesis by blast
  next
    case False
    from progress [OF less.prems assms False] obtain a s1
      where a: "a \<noteq> Cancel" "a \<notin> range SeeDone" and st: "pstep maxc exec a s = Some s1"
        and m: "sum_list (map weight (gos s1)) < sum_list (map weight (gos s))" by blast
    have "pinv maxc exec n s1" using less.prems st by (rule pinv_step)
    from less.hyps [OF m this] obtain rest s'
      where r: "\<forall>a\<in>set rest. a \<noteq> Cancel \<and> a \<notin> range SeeDone"
        and run: "runActions maxc exec rest s1 = Some s'" and fin: "allReturned s'" by blast
    from a r st run fin
    have "(\<forall>b\<in>set (a # rest). b \<noteq> Cancel \<and> b \<notin> range SeeDone)
          \<and> runActions maxc exec (a # rest) s = Some s' \<and> allReturned s'" by simp
    then show ?thesis by blast
  qed
qed

lemma executeParallel_completes:
  assumes "1 \<le> maxc"
    and "runActions maxc (\<lambda>i. executeCommand h dry (os i) (cmds ! i) p e) sched
           (initial (length cmds) cancelled) = Some s"
  shows "\<exists>rest rs fx. (\<forall>a\<in>set rest. a \<noteq> Cancel \<and> a \<notin> range SeeDone)
           \<and> executeParallel h dry maxc os (sched @ rest) cancelled cmds p e = Returned (rs, fx)"
proof -
  let ?exec = "\<lambda>i. executeCommand h dry (os i) (cmds ! i) p e"
  have "pinv maxc ?exec (length cmds) s" using pinv_initial assms(2) by (rule pinv_run)
  from completion [OF assms(1) this] obtain rest s'
    where r: "\<forall>a\<in>set rest. a \<noteq> Cancel \<and> a \<notin> range SeeDone"
      and run: "runActions maxc ?exec rest s = Some s'" and fin: "allReturned s'" by blast
  from assms run have "runActions maxc ?exec (sched @ rest) (initial (length cmds) cancelled) = Some s'"
    by (simp add: runActions_append)
  with fin assms(1) have "executeParallel h dry maxc os (sched @ rest) cancelled cmds p e
                          = Returned (results s', effects s')"
    by (simp add: executeParallel_def)
  with r show ?thesis by blast
qed

lemma Run_parallel_completes:
  assumes "\<not> sequential r" "1 \<le> MaxConcurrency (cfg r)"
    and "runActions (MaxConcurrency (cfg r))
           (\<lambda>i. executeCommand h (dryRun r) (os i) (Commands (OnChange (cfg r)) ! i) eventPath eventType)
           sched (initial (length (Commands (OnChange (cfg r)))) cancelled) = Some s"
  shows "\<exists>rest rs fx. (\<forall>a\<in>set rest. a \<noteq> Cancel \<and> a \<notin> range SeeDone)
           \<and> Run r h os (sched @ rest) cancelled eventPath eventType = Returned (rs, fx)"
proof (cases "Commands (OnChange (cfg r)) = []")
  case True
  then have "(\<forall>a\<in>set []. a \<noteq> Cancel \<and> a \<notin> range SeeDone)
             \<and> Run r h os (sched @ []) cancelled eventPath eventType = Returned ([], [])"
    by (simp add: Run_def)
  then show ?thesis by blast
next
  case False
  from executeParallel_completes [OF assms(2,3)] obtain rest rs fx
    where "\<forall>a\<in>set rest. a \<noteq> Cancel \<and> a \<notin> range SeeDone"
      and "executeParallel h (dryRun r) (MaxConcurrency (cfg r)) os (sched @ rest) cancelled
             (Commands (OnChange (cfg r))) eventPath eventType = Returned (rs, fx)" by blast
  with False assms(1)
  have "(\<forall>a\<in>set rest. a \<noteq> Cancel \<and> a \<notin> range SeeDone)
        \<and> Run r h os (sched @ rest) cancelled eventPath eventType = Returned (rs, fx)"
    by (simp add: Run_def Let_def)
  then show ?thesis by blast
qed

lemma Run_parallel_returns_all:
  assumes "\<not> sequential r" "1 \<le> MaxConcurrency (cfg r)"
  shows "\<exists>sched fx. Run r h os sched False eventPath eventType
           = Returned (map (\<lambda>i. fst (executeCommand h (dryRun r) (os i)
                                       (Commands (OnChange (cfg r)) ! i) eventPath eventType))
                           [0..<length (Commands (OnChange (cfg r)))], fx)"
proof -
  have "runActions (MaxConcurrency (cfg r))
           (\<lambda>i. executeCommand h (dryRun r) (os i) (Commands (OnChange (cfg r)) ! i) eventPath eventType)
           [] (initial (length (Commands (OnChange (cfg r)))) False)
        = Some (initial (length (Commands (OnChange (cfg r)))) False)" by simp
  from Run_parallel_completes [OF assms this] obtain rest rs fx
    where nc: "\<forall>a\<in>set rest. a \<noteq> Cancel \<and> a \<notin> range SeeDone"
      and run: "Run r h os rest False eventPath eventType = Returned (rs, fx)" by auto
  from Run_parallel_slots [OF assms(1) run] nc
  have len: "length rs = length (Commands (OnChange (cfg r)))"
    and nth: "\<forall>i<length (Commands (OnChange (cfg r))).
                rs ! i = fst (executeCommand h (dryRun r) (os i)
                                (Commands (OnChange (cfg r)) ! i) eventPath eventType)"
    by auto
  have "rs = map (\<lambda>i. fst (executeCommand h (dryRun r) (os i)
                            (Commands (OnChange (cfg r)) ! i) eventPath eventType))
                 [0..<length (Commands (OnChange (cfg r)))]"
    using len nth by (intro nth_equalityI) simp_all
  with run show ?thesis by blast
qed

lemma pstep_weight:
  assumes "pstep maxc exec a s = Some s'"
  shows "sum_list (map weight (gos s')) + (if a = Cancel then 0 else 1)
         \<le> sum_list (map weight (gos s))"
proof (cases a)
  case (Acquire i)
  with assms have i: "i < length (gos s)" "gos s ! i = Waiting"
    and s': "gos s' = (gos s)[i := Running]"
    by (auto simp: pstep_def split: if_splits)
  from sum_update [OF i(1), of weight Running] i(2) s' Acquire show ?thesis by simp
next
  case (SeeDone i)
  with assms have i: "i < length (gos s)" "gos s ! i = Waiting"
    and s': "gos s' = (gos s)[i := Abandoned]"
    by (auto simp: pstep_def split: if_splits)
  from sum_update [OF i(1), of weight Abandoned] i(2) s' SeeDone show ?thesis by simp
next
  case (Return i)
  with assms have i: "i < length (gos s)" "gos s ! i = Running"
    and s': "gos s' = (gos s)[i := Releasing]"
    by (auto simp: pstep_def split: if_splits)
  from sum_update [OF i(1), of weight Releasing] i(2) s' Return show ?thesis by simp
next
  case (Release i)
  with assms have i: "i < length (gos s)" "gos s ! i = Releasing"
    and s': "gos s' = (gos s)[i := Finished]"
    by (auto simp: pstep_def split: if_splits)
  from sum_update [OF i(1), of weight Finished] i(2) s' Release show ?thesis by simp
next
  case Cancel
  with assms show ?thesis by (auto simp: pstep_def)
qed

lemma runActions_weight:
  "runActions maxc exec sched s = Some s' \<Longrightarrow>
   sum_list (map weight (gos s')) + length (filter (\<lambda>a. a \<noteq> Cancel) sched)
   \<le> sum_list (map weight (gos s))"
proof (induction sched arbitrary: s)
  case Nil
  then show ?case by simp
next
  case (Cons a sched)
  then obtain s1 where st: "pstep maxc exec a s = Some s1"
    and run: "runActions maxc exec sched s1 = Some s'"
    by (auto split: option.splits)
  from Cons.IH [OF run] pstep_weight [OF st] show ?case by (simp split: if_splits)
qed

lemma weight_initial: "sum_list (map weight (gos (initial n cancelled))) = 3 * n"
  by (induction n) (simp_all add: initial_def)

lemma schedule_bounded:
  assumes "runActions maxc exec sched (initial n cancelled) = Some s"
  shows "length (filter (\<lambda>a. a \<noteq> Cancel) sched) \<le> 3 * n"
  using runActions_weight [OF assms] by (simp add: weight_initial)

text \<open>
  C4.  In parallel mode, whatever the interleaving of the goroutines and the
  moment of cancellation, the list \<open>Run\<close> returns has one slot per configured
  command; slot \<open>i\<close> holds the result of \<open>executeCommand\<close> for command \<open>i\<close>,
  unless goroutine \<open>i\<close> saw the cancelled context while it waited for a slot:
  then slot \<open>i\<close> is the zero value.  A goroutine only gives up that way when
  the context was cancelled.  And \<open>Run\<close> does return: with a capacity of at
  least one, every interleaving that has got somewhere can be carried on,
  without any cancellation and without a goroutine giving up, until \<open>Run\<close>
  returns; in particular an uncancelled run returns the list of all the
  commands' own results.  No interleaving goes on for ever: it has at most
  three goroutine steps per command.
\<close>

theorem Run_parallel_index_addressed:
  assumes "\<not> sequential r"
  shows "(\<forall>rs fx. Run r h os sched cancelled eventPath eventType = Returned (rs, fx) \<longrightarrow>
            length rs = length (Commands (OnChange (cfg r)))
            \<and> (\<forall>i<length (Commands (OnChange (cfg r))).
                  rs ! i = (if SeeDone i \<in> set sched then zeroResult
                            else fst (executeCommand h (dryRun r) (os i)
                                        (Commands (OnChange (cfg r)) ! i) eventPath eventType)))
            \<and> (\<forall>i<length (Commands (OnChange (cfg r))).
                  SeeDone i \<in> set sched \<longrightarrow> cancelled \<or> Cancel \<in> set sched))
       \<and> (1 \<le> MaxConcurrency (cfg r) \<longrightarrow>
            (\<forall>s. runActions (MaxConcurrency (cfg r))
                     (\<lambda>i. executeCommand h (dryRun r) (os i)
                             (Commands (OnChange (cfg r)) ! i) eventPath eventType)
                     sched (initial (length (Commands (OnChange (cfg r)))) cancelled) = Some s \<longrightarrow>
                 (\<exists>rest rs fx. (\<forall>a\<in>set rest. a \<noteq> Cancel \<and> a \<notin> range SeeDone)
                     \<and> Run r h os (sched @ rest) cancelled eventPath eventType = Returned (rs, fx)))
            \<and> (\<exists>sched' fx. Run r h os sched' False eventPath eventType
                   = Returned (map (\<lambda>i. fst (executeCommand h (dryRun r) (os i)
                                               (Commands (OnChange (cfg r)) ! i) eventPath eventType))
                                   [0..<length (Commands (OnChange (cfg r)))], fx)))
       \<and> (\<forall>s. runActions (MaxConcurrency (cfg r))
                 (\<lambda>i. executeCommand h (dryRun r) (os i)
                         (Commands (OnChange (cfg r)) ! i) eventPath eventType)
                 sched (initial (length (Commands (OnChange (cfg r)))) cancelled) = Some s \<longrightarrow>
             length (filter (\<lambda>a. a \<noteq> Cancel) sched) \<le> 3 * length (Commands (OnChange (cfg r))))"
proof (intro conjI)
  show "\<forall>rs fx. Run r h os sched cancelled eventPath eventType = Returned (rs, fx) \<longrightarrow>
            length rs = length (Commands (OnChange (cfg r)))
            \<and> (\<forall>i<length (Commands (OnChange (cfg r))).
                  rs ! i = (if SeeDone i \<in> set sched then zeroResult
                            else fst (executeCommand h (dryRun r) (os i)
                                        (Commands (OnChange (cfg r)) ! i) eventPath eventType)))
            \<and> (\<forall>i<length (Commands (OnChange (cfg r))).
                  SeeDone i \<in> set sched \<longrightarrow> cancelled \<or> Cancel \<in> set sched)"
    using Run_parallel_slots [OF assms, of h os sched cancelled eventPath eventType] by blast
next
  show "1 \<le> MaxConcurrency (cfg r) \<longrightarrow>
            (\<forall>s. runActions (MaxConcurrency (cfg r))
                     (\<lambda>i. executeCommand h (dryRun r) (os i)
                             (Commands (OnChange (cfg r)) ! i) eventPath eventType)
                     sched (initial (length (Commands (OnChange (cfg r)))) cancelled) = Some s \<longrightarrow>
                 (\<exists>rest rs fx. (\<forall>a\<in>set rest. a \<noteq> Cancel \<and> a \<notin> range SeeDone)
                     \<and> Run r h os (sched @ rest) cancelled eventPath eventType = Returned (rs, fx)))
            \<and> (\<exists>sched' fx. Run r h os sched' False eventPath eventType
                   = Returned (map (\<lambda>i. fst (executeCommand h (dryRun r) (os i)
                                               (Commands (OnChange (cfg r)) ! i) eventPath eventType))
                                   [0..<length (Commands (OnChange (cfg r)))], fx))"
    using Run_parallel_completes [OF assms, of h os eventPath eventType sched cancelled]
          Run_parallel_returns_all [OF assms, of h os eventPath eventType]
    by blast
next
  show "\<forall>s. runActions (MaxConcurrency (cfg r))
                 (\<lambda>i. executeCommand h (dryRun r) (os i)
                         (Commands (OnChange (cfg r)) ! i) eventPath eventType)
                 sched (initial (length (Commands (OnChange (cfg r)))) cancelled) = Some s \<longrightarrow>
             length (filter (\<lambda>a. a \<noteq> Cancel) sched) \<le> 3 * length (Commands (OnChange (cfg r)))"
    using schedule_bounded by blast
qed

text \<open>
  C5.  For a capacity of at least one, at every moment of every interleaving
  (every prefix of the schedule) the channel holds exactly one token per
  goroutine that has sent and not yet received, at most \<open>maxc\<close> of them, so at
  most \<open>maxc\<close> goroutines are inside \<open>executeCommand\<close>.  When
  \<open>executeParallel\<close> returns, no command is executing: every goroutine has
  finished, or has given up waiting with the context cancelled.
\<close>

theorem executeParallel_concurrency_ceiling:
  assumes "1 \<le> maxc"
  shows "(\<forall>j s. runActions maxc (\<lambda>i. executeCommand h dry (os i) (cmds ! i) eventPath eventType)
                   (take j sched) (initial (length cmds) cancelled) = Some s
              \<longrightarrow> int (executing s) \<le> maxc
                  \<and> sem s = length (filter holding (gos s))
                  \<and> int (sem s) \<le> maxc)
       \<and> (\<forall>x. executeParallel h dry maxc os sched cancelled cmds eventPath eventType = Returned x
              \<longrightarrow> (\<exists>s. runActions maxc (\<lambda>i. executeCommand h dry (os i) (cmds ! i) eventPath eventType)
                          sched (initial (length cmds) cancelled) = Some s
                       \<and> x = (results s, effects s)
                       \<and> executing s = 0
                       \<and> (\<forall>i<length cmds. gos s ! i = Finished
                               \<or> gos s ! i = Abandoned \<and> ctxDone s)))"
proof (intro conjI allI impI)
  fix j s
  assume run: "runActions maxc (\<lambda>i. executeCommand h dry (os i) (cmds ! i) eventPath eventType)
                   (take j sched) (initial (length cmds) cancelled) = Some s"
  have inv: "pinv maxc (\<lambda>i. executeCommand h dry (os i) (cmds ! i) eventPath eventType) (length cmds) s"
    using pinv_initial run by (rule pinv_run)
  then show "sem s = length (filter holding (gos s))" by (simp add: pinv_def)
  from inv assms show "int (sem s) \<le> maxc" by (cases "sem s") (auto simp: pinv_def)
  with executing_le_sem [OF inv] show "int (executing s) \<le> maxc" by simp
next
  fix x
  assume "executeParallel h dry maxc os sched cancelled cmds eventPath eventType = Returned x"
  then obtain s where run: "runActions maxc (\<lambda>i. executeCommand h dry (os i) (cmds ! i) eventPath eventType)
        sched (initial (length cmds) cancelled) = Some s"
    and ret: "allReturned s" and x: "x = (results s, effects s)"
    by (rule executeParallel_Returned)
  have inv: "pinv maxc (\<lambda>i. executeCommand h dry (os i) (cmds ! i) eventPath eventType) (length cmds) s"
    using pinv_initial run by (rule pinv_run)
  have fin: "\<forall>i<length cmds. gos s ! i = Finished \<or> gos s ! i = Abandoned \<and> ctxDone s"
  proof (intro allI impI)
    fix i assume i: "i < length cmds"
    then have "gos s ! i = Finished \<or> gos s ! i = Abandoned"
      using ret inv by (intro allReturned_nth) (simp_all add: pinv_def)
    then show "gos s ! i = Finished \<or> gos s ! i = Abandoned \<and> ctxDone s"
      using inv i by (auto simp: pinv_def)
  qed
  have "filter (\<lambda>g. g = Running) (gos s) = []"
    using ret by (auto simp: allReturned_def list_all_iff filter_empty_conv)
  then have "executing s = 0" by (simp add: executing_def)
  with run x fin
  show "\<exists>s. runActions maxc (\<lambda>i. executeCommand h dry (os i) (cmds ! i) eventPath eventType)
                          sched (initial (length cmds) cancelled) = Some s
                       \<and> x = (results s, effects s)
                       \<and> executing s = 0
                       \<and> (\<forall>i<length cmds. gos s ! i = Finished
                               \<or> gos s ! i = Abandoned \<and> ctxDone s)"
    by blast
qed

theorem Run_parallel_index_addressed_witness:
  "\<not> sequential \<lparr>cfg = \<lparr>Watch = [], OnChange = \<lparr>Commands =
        [\<lparr>Cmd = [''echo'', ''first''], Run = [], Timeout = []\<rparr>,
         \<lparr>Cmd = [''echo'', ''second''], Run = [], Timeout = []\<rparr>,
         \<lparr>Cmd = [''echo'', ''third''], Run = [], Timeout = []\<rparr>]\<rparr>,
        Debounce = ''100ms'', MaxConcurrency = 2\<rparr>, sequential = False, dryRun = False\<rparr>
   \<and> (1::int) \<le> 2
   \<and> Run \<lparr>cfg = \<lparr>Watch = [], OnChange = \<lparr>Commands =
        [\<lparr>Cmd = [''echo'', ''first''], Run = [], Timeout = []\<rparr>,
         \<lparr>Cmd = [''echo'', ''second''], Run = [], Timeout = []\<rparr>,
         \<lparr>Cmd = [''echo'', ''third''], Run = [], Timeout = []\<rparr>]\<rparr>,
        Debounce = ''100ms'', MaxConcurrency = 2\<rparr>, sequential = False, dryRun = False\<rparr>
       \<lparr>goosWindows = False, parseDuration = (\<lambda>s. None), volumeNameLen = (\<lambda>p. 0),
        fmatch = (\<lambda>p n. False)\<rparr>
       (\<lambda>i. \<lparr>launch = (\<lambda>argv t. (WaitOk, 2)), idle = 0\<rparr>)
       [Acquire 0, Acquire 1, Cancel, SeeDone 2, Return 1, Release 1, Return 0, Release 0]
       False ''/tmp/test.go'' ''WRITE''
     = Returned ([\<lparr>Command = [''echo'', ''first''], ExitCode = 0, Duration = 2, Error = None\<rparr>,
                  \<lparr>Command = [''echo'', ''second''], ExitCode = 0, Duration = 2, Error = None\<rparr>,
                  zeroResult],
                 [Spawn [''echo'', ''second''] 60000000000, Spawn [''echo'', ''first''] 60000000000])
   \<and> Run \<lparr>cfg = \<lparr>Watch = [], OnChange = \<lparr>Commands =
        [\<lparr>Cmd = [''echo'', ''first''], Run = [], Timeout = []\<rparr>,
         \<lparr>Cmd = [''echo'', ''second''], Run = [], Timeout = []\<rparr>,
         \<lparr>Cmd = [''echo'', ''third''], Run = [], Timeout = []\<rparr>]\<rparr>,
        Debounce = ''100ms'', MaxConcurrency = 2\<rparr>, sequential = False, dryRun = False\<rparr>
       \<lparr>goosWindows = False, parseDuration = (\<lambda>s. None), volumeNameLen = (\<lambda>p. 0),
        fmatch = (\<lambda>p n. False)\<rparr>
       (\<lambda>i. \<lparr>launch = (\<lambda>argv t. (WaitOk, 2)), idle = 0\<rparr>)
       [Acquire 2, Acquire 0, Return 0, Release 0, Acquire 1, Return 2, Return 1, Release 1, Release 2]
       False ''/tmp/test.go'' ''WRITE''
     = Returned ([\<lparr>Command = [''echo'', ''first''], ExitCode = 0, Duration = 2, Error = None\<rparr>,
                  \<lparr>Command = [''echo'', ''second''], ExitCode = 0, Duration = 2, Error = None\<rparr>,
                  \<lparr>Command = [''echo'', ''third''], ExitCode = 0, Duration = 2, Error = None\<rparr>],
                 [Spawn [''echo'', ''first''] 60000000000, Spawn [''echo'', ''third''] 60000000000,
                  Spawn [''echo'', ''second''] 60000000000])"
  using Run_parallel_index_addressed
    [of "\<lparr>cfg = \<lparr>Watch = [], OnChange = \<lparr>Commands =
        [\<lparr>Cmd = [''echo'', ''first''], Run = [], Timeout = []\<rparr>,
         \<lparr>Cmd = [''echo'', ''second''], Run = [], Timeout = []\<rparr>,
         \<lparr>Cmd = [''echo'', ''third''], Run = [], Timeout = []\<rparr>]\<rparr>,
        Debounce = ''100ms'', MaxConcurrency = 2\<rparr>, sequential = False, dryRun = False\<rparr>"
       "\<lparr>goosWindows = False, parseDuration = (\<lambda>s. None), volumeNameLen = (\<lambda>p. 0),
        fmatch = (\<lambda>p n. False)\<rparr>"
       "(\<lambda>i. \<lparr>launch = (\<lambda>argv t. (WaitOk, 2)), idle = 0\<rparr>)"
       "[Acquire 0, Acquire 1, Cancel, SeeDone 2, Return 1, Release 1, Return 0, Release 0]"
       False "''/tmp/test.go''" "''WRITE''"]
  by (simp add: Run_def Let_def executeParallel_def initial_def pstep_def allReturned_def
        executeCommand_def replacePlaceholders_def substToken_def replaceAll_Cons
        commandTimeout_def defaultTimeout_def numeral_2_eq_2)

theorem executeParallel_concurrency_ceiling_witness:
  "(1::int) \<le> 2
   \<and> executeParallel
       \<lparr>goosWindows = False, parseDuration = (\<lambda>s. None), volumeNameLen = (\<lambda>p. 0),
        fmatch = (\<lambda>p n. False)\<rparr>
       True 2 (\<lambda>i. \<lparr>launch = (\<lambda>argv t. (WaitOk, 2)), idle = 0\<rparr>)
       [Acquire 1, Acquire 0, Return 0, Release 0, Acquire 2, Return 2, Return 1, Release 1, Release 2]
       False
       [\<lparr>Cmd = [''sleep'', ''1''], Run = [], Timeout = []\<rparr>,
        \<lparr>Cmd = [''sleep'', ''2''], Run = [], Timeout = []\<rparr>,
        \<lparr>Cmd = [''sleep'', ''3''], Run = [], Timeout = []\<rparr>]
       ''/tmp/test.go'' ''WRITE''
     = Returned ([\<lparr>Command = [''sleep'', ''1''], ExitCode = 0, Duration = 0, Error = None\<rparr>,
                  \<lparr>Command = [''sleep'', ''2''], ExitCode = 0, Duration = 0, Error = None\<rparr>,
                  \<lparr>Command = [''sleep'', ''3''], ExitCode = 0, Duration = 0, Error = None\<rparr>], [])
   \<and> executeParallel
       \<lparr>goosWindows = False, parseDuration = (\<lambda>s. None), volumeNameLen = (\<lambda>p. 0),
        fmatch = (\<lambda>p n. False)\<rparr>
       True 2 (\<lambda>i. \<lparr>launch = (\<lambda>argv t. (WaitOk, 2)), idle = 0\<rparr>)
       [Acquire 1, Acquire 0, Acquire 2]
       False
       [\<lparr>Cmd = [''sleep'', ''1''], Run = [], Timeout = []\<rparr>,
        \<lparr>Cmd = [''sleep'', ''2''], Run = [], Timeout = []\<rparr>,
        \<lparr>Cmd = [''sleep'', ''3''], Run = [], Timeout = []\<rparr>]
       ''/tmp/test.go'' ''WRITE'' = Blocked"
  using executeParallel_concurrency_ceiling
    [of 2 "\<lparr>goosWindows = False, parseDuration = (\<lambda>s. None), volumeNameLen = (\<lambda>p. 0),
        fmatch = (\<lambda>p n. False)\<rparr>"
       True "(\<lambda>i. \<lparr>launch = (\<lambda>argv t. (WaitOk, 2)), idle = 0\<rparr>)"
       "[\<lparr>Cmd = [''sleep'', ''1''], Run = [], Timeout = []\<rparr>,
        \<lparr>Cmd = [''sleep'', ''2''], Run = [], Timeout = []\<rparr>,
        \<lparr>Cmd = [''sleep'', ''3''], Run = [], Timeout = []\<rparr>]"
       "''/tmp/test.go''" "''WRITE''"
       "[Acquire 1, Acquire 0, Return 0, Release 0, Acquire 2, Return 2, Return 1, Release 1, Release 2]"
       False]
  by (simp add: Let_def executeParallel_def initial_def pstep_def allReturned_def
        executeCommand_def replacePlaceholders_def substToken_def replaceAll_Cons
        numeral_2_eq_2)

section \<open>Facts about the watcher\<close>

lemma addSingle_present: "isWatched w path \<Longrightarrow> addSingle fs w path = (None, w)"
  by (simp add: addSingle_def)

lemma addSingle_cases:
  "watched (snd (addSingle fs w path)) = watched w
   \<or> (\<not> isWatched w path \<and> watched (snd (addSingle fs w path)) = (watched w)(path \<mapsto> True))"
  by (auto simp: addSingle_def split: option.splits)

lemma addSingle_grows: "watchedSet w \<subseteq> watchedSet (snd (addSingle fs w path))"
  by (auto simp: addSingle_def watchedSet_def isWatched_def split: option.splits)

lemma walkFn_grows: "watchedSet w \<subseteq> watchedSet (snd (walkFn h c fs p d err w))"
  using addSingle_grows [of w fs p]
  by (auto simp: walkFn_def split: option.splits prod.splits)

lemma walk_grows:
  "watchedSet w \<subseteq> watchedSet (snd (walk h c fs n w))"
  "watchedSet w \<subseteq> watchedSet (snd (walkEntries h c fs ns w))"
proof (induction h c fs n w and h c fs ns w rule: walk_walkEntries.induct)
  case (1 h c fs p w)
  then show ?case by (simp add: walkFn_grows)
next
  case (2 h c fs p err w)
  then show ?case by (simp add: walkFn_grows)
next
  case (3 h c fs p err w)
  then show ?case by (simp add: walkFn_grows)
next
  case (4 h c fs p entries w)
  obtain r w' where f: "walkFn h c fs p True None w = (r, w')"
    by (cases "walkFn h c fs p True None w")
  have g: "watchedSet w \<subseteq> watchedSet w'"
    using walkFn_grows [of w h c fs p True None] f by simp
  show ?case
  proof (cases r)
    case Continue
    with 4 f have "watchedSet w' \<subseteq> watchedSet (snd (walkEntries h c fs entries w'))" by simp
    with g Continue f show ?thesis by auto
  next
    case SkipDir
    with f g show ?thesis by simp
  next
    case (Failed e)
    with f g show ?thesis by simp
  qed
next
  case (5 h c fs w)
  then show ?case by simp
next
  case (6 h c fs n ns w)
  obtain r w' where f: "walk h c fs n w = (r, w')"
    by (cases "walk h c fs n w")
  have g: "watchedSet w \<subseteq> watchedSet w'"
    using 6(1) f by simp
  show ?case
  proof (cases r)
    case Continue
    with 6 f have "watchedSet w' \<subseteq> watchedSet (snd (walkEntries h c fs ns w'))" by simp
    with g Continue f show ?thesis by auto
  next
    case SkipDir
    show ?thesis
    proof (cases "walkEntries h c fs (n # ns) w = (SkipDir, w')")
      case True
      with g show ?thesis by simp
    next
      case False
      with f SkipDir have e: "walkEntries h c fs (n # ns) w = walkEntries h c fs ns w'"
        by (auto split: fsnode.splits if_splits)
      from False f SkipDir 6 have "watchedSet w' \<subseteq> watchedSet (snd (walkEntries h c fs ns w'))"
        by (cases n) (auto split: if_splits)
      with g e show ?thesis by auto
    qed
  next
    case (Failed e)
    with f g show ?thesis by simp
  qed
qed

lemma addRecursive_grows: "watchedSet w \<subseteq> watchedSet (snd (addRecursive h c fs root w))"
  using walk_grows(1) [of w h c fs "tree fs root"]
  by (auto simp: addRecursive_def split: prod.splits walk_result.splits)

lemma addPath_grows: "watchedSet w \<subseteq> watchedSet (snd (addPath h c fs wp w))"
  using addRecursive_grows [of w h c fs] addSingle_grows [of w fs]
  by (auto simp: addPath_def split: prod.splits option.splits)

lemma startLoop_grows: "watchedSet w \<subseteq> watchedSet (snd (startLoop h c fs wps w))"
proof (induction wps arbitrary: w)
  case Nil
  then show ?case by simp
next
  case (Cons wp wps)
  obtain r w' where f: "addPath h c fs wp w = (r, w')" by (cases "addPath h c fs wp w")
  have g: "watchedSet w \<subseteq> watchedSet w'" using addPath_grows [of w h c fs wp] f by simp
  show ?case
  proof (cases r)
    case None
    with f g Cons.IH [of w'] show ?thesis by auto
  next
    case (Some e)
    with f g show ?thesis by simp
  qed
qed

lemma registerCreated_grows: "watchedSet w \<subseteq> watchedSet (registerCreated fs name wps w)"
proof (induction wps arbitrary: w)
  case Nil
  then show ?case by simp
next
  case (Cons wp wps)
  show ?case
    using Cons.IH [of w] Cons.IH [of "snd (addSingle fs w name)"] addSingle_grows [of w fs name]
    by (auto simp: Let_def)
qed

lemma handleEvent_grows: "watchedSet w \<subseteq> watchedSet (fst (handleEvent h c fs ev w))"
  using registerCreated_grows [of w fs "Name ev" "Watch c"]
  by (auto simp: handleEvent_def Let_def)

lemma registerCreated_present:
  "isWatched w name \<Longrightarrow> registerCreated fs name wps w = w"
  by (induction wps) (auto simp: Let_def addSingle_present)

section \<open>The watch tree manager: the claims\<close>

text \<open>
  C9.  The set of watched paths only grows.  \<open>addSingle\<close> leaves the map as it
  is or adds the one path, which was not watched before; on a path that is
  watched already it succeeds and changes nothing, without a call of
  \<open>fsWatcher.Add\<close>.  The recursive walk, \<open>addPath\<close>, the registration loop of
  \<open>Start\<close> and the handling of a raw notification (with the live registration
  of a new directory) each end with a set that contains the set they started
  with.  No operation of the watcher removes a key.
\<close>

theorem WatchRegistration_only_grows:
  "watchedSet w \<subseteq> watchedSet (snd (addSingle fs w path))
   \<and> (watched (snd (addSingle fs w path)) = watched w
        \<or> (\<not> isWatched w path
            \<and> watched (snd (addSingle fs w path)) = (watched w)(path \<mapsto> True)))
   \<and> (isWatched w path \<longrightarrow> addSingle fs w path = (None, w))
   \<and> watchedSet w \<subseteq> watchedSet (snd (addRecursive h c fs root w))
   \<and> watchedSet w \<subseteq> watchedSet (snd (addPath h c fs wp w))
   \<and> watchedSet w \<subseteq> watchedSet (snd (startLoop h c fs (Watch c) w))
   \<and> watchedSet w \<subseteq> watchedSet (fst (handleEvent h c fs ev w))"
  using addSingle_grows [of w fs path] addSingle_cases [of fs w path]
        addSingle_present [of w path fs] addRecursive_grows [of w h c fs root]
        addPath_grows [of w h c fs wp] startLoop_grows [of w h c fs "Watch c"]
        handleEvent_grows [of w h c fs ev]
  by blast

theorem WatchRegistration_only_grows_witness:
  "isWatched \<lparr>watched = [''/tmp'' \<mapsto> True], registered = [''/tmp''], calls = 1\<rparr> ''/tmp''
   \<and> addSingle \<lparr>fsAdd = (\<lambda>n p. None), absPath = (\<lambda>p. (p, None)), cleanPath = (\<lambda>p. p),
                 stat = (\<lambda>p. (True, None)), tree = (\<lambda>p. Dir p [])\<rparr>
        \<lparr>watched = [''/tmp'' \<mapsto> True], registered = [''/tmp''], calls = 1\<rparr> ''/tmp''
      = (None, \<lparr>watched = [''/tmp'' \<mapsto> True], registered = [''/tmp''], calls = 1\<rparr>)
   \<and> addSingle \<lparr>fsAdd = (\<lambda>n p. None), absPath = (\<lambda>p. (p, None)), cleanPath = (\<lambda>p. p),
                 stat = (\<lambda>p. (True, None)), tree = (\<lambda>p. Dir p [])\<rparr>
        \<lparr>watched = [''/tmp'' \<mapsto> True], registered = [''/tmp''], calls = 1\<rparr> ''/tmp/new''
      = (None, \<lparr>watched = [''/tmp'' \<mapsto> True, ''/tmp/new'' \<mapsto> True],
                registered = [''/tmp'', ''/tmp/new''], calls = 2\<rparr>)"
  using WatchRegistration_only_grows
    [of "\<lparr>watched = [''/tmp'' \<mapsto> True], registered = [''/tmp''], calls = 1\<rparr>"
        "\<lparr>fsAdd = (\<lambda>n p. None), absPath = (\<lambda>p. (p, None)), cleanPath = (\<lambda>p. p),
                 stat = (\<lambda>p. (True, None)), tree = (\<lambda>p. Dir p [])\<rparr>"
        "''/tmp''"]
  by (simp add: addSingle_def isWatched_def)

lemma split_Cons:
  "split s (a # sep) =
     (if s = [] then [[]]
      else case indexOf s (a # sep) of
             None \<Rightarrow> [s]
           | Some m \<Rightarrow> take m s # split (drop (m + length (a # sep)) s) (a # sep))"
  by (subst split.simps) simp

lemma shouldIgnore_dotfile:
  "hasPrefix (base h path) ''.'' \<Longrightarrow> base h path \<noteq> ''.'' \<Longrightarrow> shouldIgnore h c path"
  by (simp add: shouldIgnore_def Let_def)

text \<open>
  C3 at the inputs of \<open>TestWatcher_ShouldIgnore\<close>.  The rule for \<open>**\<close> compares
  the prefix \<open>vendor\<close> or \<open>.git\<close> with the start of the whole path, so it holds
  for the relative paths \<open>vendor/pkg\<close> and \<open>.git/config\<close>, but for the absolute
  paths \<open>/tmp/vendor/pkg\<close> and \<open>/tmp/.git/config\<close>, which the test expects to
  be ignored, the predicate is false.  The other four rows of the test's
  table come out as the test expects.
\<close>

theorem shouldIgnore_test_table:
  "shouldIgnore linuxHost ignoreTestConfig ''/tmp/vendor/pkg'' = False
   \<and> shouldIgnore linuxHost ignoreTestConfig ''/tmp/.git/config'' = False
   \<and> shouldIgnore linuxHost ignoreTestConfig ''vendor/pkg'' = True
   \<and> shouldIgnore linuxHost ignoreTestConfig ''.git/config'' = True
   \<and> shouldIgnore linuxHost ignoreTestConfig ''/tmp/test.tmp'' = True
   \<and> shouldIgnore linuxHost ignoreTestConfig ''/tmp/.hidden'' = True
   \<and> shouldIgnore linuxHost ignoreTestConfig ''/tmp/test.go'' = False
   \<and> shouldIgnore linuxHost ignoreTestConfig ''/tmp/normal/file.go'' = False"
  by (simp add: shouldIgnore_def ShouldIgnore_def ignoreTestConfig_def linuxHost_def Let_def
      base_def toSlash_def isPathSeparator_def patternIgnores_def starRule_def dirRule_def
      trimSuffix_def trimPrefix_def hasSuffix_def split_Cons)

section \<open>Facts about the debouncer\<close>

lemma ok_armed:
  assumes "timersOk d w" "(h, dl, k) \<in> set (armed w)"
  shows "h < nextTimer w" "now w \<le> dl" "dl \<le> now w + d"
    "timers (debouncer w) k = Some h" "pending (debouncer w) k \<noteq> None"
  using assms unfolding timersOk_def by auto

lemma ok_timer:
  assumes "timersOk d w" "timers (debouncer w) k = Some h"
  shows "\<exists>dl. (h, dl, k) \<in> set (armed w)"
  using assms unfolding timersOk_def by auto

lemma ok_distinct: "timersOk d w \<Longrightarrow> distinct (map fst (armed w))"
  and ok_sorted: "timersOk d w \<Longrightarrow> sorted (map (\<lambda>(h, dl, k). dl) (armed w))"
  and ok_delay: "timersOk d w \<Longrightarrow> delay (debouncer w) = d"
  unfolding timersOk_def by auto

lemma fst_unique:
  "distinct (map fst xs) \<Longrightarrow> (a, b) \<in> set xs \<Longrightarrow> (a, b') \<in> set xs \<Longrightarrow> b' = b"
  by (rule eq_key_imp_eq_value)

lemma ok_unique:
  assumes "timersOk d w" "(h, dl, k) \<in> set (armed w)" "(h', dl', k) \<in> set (armed w)"
  shows "h' = h \<and> dl' = dl"
proof -
  from ok_armed(4) [OF assms(1,2)] ok_armed(4) [OF assms(1,3)] have h: "h' = h" by simp
  have "(dl', k) = (dl, k)"
    using ok_distinct [OF assms(1)] assms(2) assms(3) [unfolded h] by (rule fst_unique)
  with h show ?thesis by simp
qed

lemma ok_same_handle:
  assumes "timersOk d w" "(h, dl, k) \<in> set (armed w)" "(h, dl', k') \<in> set (armed w)"
  shows "k' = k \<and> dl' = dl"
proof -
  have "(dl', k') = (dl, k)"
    using ok_distinct [OF assms(1)] assms(2) assms(3) by (rule fst_unique)
  then show ?thesis by simp
qed

lemma find_key:
  assumes "x \<in> set xs" "P x" "\<forall>y\<in>set xs. P y \<longrightarrow> y = x"
  shows "find P xs = Some x"
  using assms
proof (induction xs)
  case Nil
  then show ?case by simp
next
  case (Cons a xs)
  show ?case
  proof (cases "P a")
    case True
    with Cons.prems(3) have "a = x" by simp
    with True show ?thesis by simp
  next
    case False
    with Cons.prems(1,2) have "x \<in> set xs" by auto
    moreover from Cons.prems(3) have "\<forall>y\<in>set xs. P y \<longrightarrow> y = x" by simp
    ultimately have "find P xs = Some x" using Cons.prems(2) by (intro Cons.IH)
    with False show ?thesis by simp
  qed
qed

lemma find_SomeD: "find P xs = Some x \<Longrightarrow> x \<in> set xs \<and> P x"
  by (induction xs) (auto split: if_splits)

lemma inflight_armed:
  assumes "timersOk d w" "(h, dl, k) \<in> set (armed w)"
  shows "\<exists>f. pending (debouncer w) k = Some f \<and> inflight k w = Some (dl, f)"
proof -
  have "find (\<lambda>(h, dl, k'). k' = k) (armed w) = Some (h, dl, k)"
  proof (rule find_key)
    show "(h, dl, k) \<in> set (armed w)" by fact
    show "case (h, dl, k) of (h, dl, k') \<Rightarrow> k' = k" by simp
    show "\<forall>y\<in>set (armed w). (case y of (h, dl, k') \<Rightarrow> k' = k) \<longrightarrow> y = (h, dl, k)"
    proof (intro ballI impI)
      fix y assume y: "y \<in> set (armed w)" "case y of (h, dl, k') \<Rightarrow> k' = k"
      then obtain h' dl' where ye: "y = (h', dl', k)" by (cases y) auto
      with y(1) ok_unique [OF assms(1,2), of h' dl'] show "y = (h, dl, k)" by simp
    qed
  qed
  moreover from ok_armed(5) [OF assms] obtain f where "pending (debouncer w) k = Some f" by auto
  ultimately show ?thesis by (simp add: inflight_def)
qed

lemma inflight_none:
  assumes "\<forall>(h, dl, k')\<in>set (armed w). k' \<noteq> k"
  shows "inflight k w = None"
proof -
  have "find (\<lambda>(h, dl, k'). k' = k) (armed w) = None"
    using assms by (auto simp: find_None_iff)
  then show ?thesis by (simp add: inflight_def)
qed

lemma inflight_SomeD:
  assumes "timersOk d w" "inflight k w = Some (dl, f)"
  shows "\<exists>h. (h, dl, k) \<in> set (armed w) \<and> pending (debouncer w) k = Some f
              \<and> timers (debouncer w) k = Some h"
proof -
  from assms(2) obtain x where x: "find (\<lambda>(h, dl, k'). k' = k) (armed w) = Some x"
    by (auto simp: inflight_def split: option.splits)
  from find_SomeD [OF x] obtain h dl' where mem: "(h, dl', k) \<in> set (armed w)" and xe: "x = (h, dl', k)"
    by (cases x) auto
  from assms(2) have "dl' = dl" "pending (debouncer w) k = Some f"
    unfolding inflight_def x xe by auto
  with mem ok_armed(4) [OF assms(1) mem] show ?thesis by auto
qed

lemma inflight_NoneD:
  assumes "timersOk d w" "inflight k w = None" "(h, dl, k') \<in> set (armed w)"
  shows "k' \<noteq> k"
  using inflight_armed [OF assms(1), of h dl k] assms(2,3) by auto

lemma Add_fields [simp]:
  "now (Add k g w) = now w" "executed (Add k g w) = executed w"
  "delay (debouncer (Add k g w)) = delay (debouncer w)"
  "nextTimer (Add k g w) = Suc (nextTimer w)"
  "pending (debouncer (Add k g w)) = (pending (debouncer w))(k \<mapsto> g)"
  "timers (debouncer (Add k g w)) = (timers (debouncer w))(k \<mapsto> nextTimer w)"
  by (simp_all add: Add_def Let_def)

lemma Add_armed:
  assumes "timersOk d w"
  shows "armed (Add k g w)
         = filter (\<lambda>(h, dl, k'). k' \<noteq> k) (armed w) @ [(nextTimer w, now w + d, k)]"
proof -
  have kept: "(case timers (debouncer w) k of
                 Some t \<Rightarrow> filter (\<lambda>(h, dl, k'). h \<noteq> t) (armed w)
               | None \<Rightarrow> armed w)
              = filter (\<lambda>(h, dl, k'). k' \<noteq> k) (armed w)"
  proof (cases "timers (debouncer w) k")
    case None
    have "\<forall>x\<in>set (armed w). case x of (h, dl, k') \<Rightarrow> k' \<noteq> k"
    proof
      fix x assume xm: "x \<in> set (armed w)"
      obtain h dl k' where x: "x = (h, dl, k')" by (cases x)
      with xm have m: "(h, dl, k') \<in> set (armed w)" by simp
      from ok_armed(4) [OF assms m] None have "k' \<noteq> k" by auto
      with x show "case x of (h, dl, k') \<Rightarrow> k' \<noteq> k" by simp
    qed
    then have "filter (\<lambda>(h, dl, k'). k' \<noteq> k) (armed w) = armed w"
      by (simp add: filter_id_conv)
    with None show ?thesis by simp
  next
    case (Some t)
    from ok_timer [OF assms Some] obtain dlt where t: "(t, dlt, k) \<in> set (armed w)" by blast
    have "filter (\<lambda>(h, dl, k'). h \<noteq> t) (armed w) = filter (\<lambda>(h, dl, k'). k' \<noteq> k) (armed w)"
    proof (rule filter_cong [OF refl])
      fix x assume xm: "x \<in> set (armed w)"
      obtain h dl k' where x: "x = (h, dl, k')" by (cases x)
      with xm have m: "(h, dl, k') \<in> set (armed w)" by simp
      have "h \<noteq> t \<longleftrightarrow> k' \<noteq> k"
      proof
        assume "h \<noteq> t"
        with ok_armed(4) [OF assms m] Some show "k' \<noteq> k" by auto
      next
        assume "k' \<noteq> k"
        show "h \<noteq> t"
        proof
          assume "h = t"
          with m ok_same_handle [OF assms t, of dl k'] \<open>k' \<noteq> k\<close> show False by simp
        qed
      qed
      with x show "(case x of (h, dl, k') \<Rightarrow> h \<noteq> t) = (case x of (h, dl, k') \<Rightarrow> k' \<noteq> k)"
        by simp
    qed
    with Some show ?thesis by simp
  qed
  show ?thesis
    using ok_delay [OF assms] unfolding Add_def Let_def kept by simp
qed

lemma Add_ok:
  assumes "timersOk d w"
  shows "timersOk d (Add k g w)"
proof -
  let ?kept = "filter (\<lambda>(h, dl, k'). k' \<noteq> k) (armed w)"
  let ?new = "(nextTimer w, now w + d, k)"
  have ar: "armed (Add k g w) = ?kept @ [?new]" using assms by (rule Add_armed)
  have keptD: "(h, dl, k') \<in> set (armed w) \<and> k' \<noteq> k" if "(h, dl, k') \<in> set ?kept" for h dl k'
    using that by simp
  have c1: "delay (debouncer (Add k g w)) = d" using ok_delay [OF assms] by simp
  have c2: "distinct (map fst (armed (Add k g w)))"
  proof -
    have "distinct (map fst ?kept)" using ok_distinct [OF assms] by (rule distinct_map_filter)
    moreover have "nextTimer w \<notin> fst ` set ?kept"
    proof
      assume "nextTimer w \<in> fst ` set ?kept"
      then obtain dl k' where "(nextTimer w, dl, k') \<in> set ?kept" by auto
      then have "(nextTimer w, dl, k') \<in> set (armed w)" by simp
      from ok_armed(1) [OF assms this] show False by simp
    qed
    ultimately show ?thesis unfolding ar by simp
  qed
  have c3: "sorted (map (\<lambda>(h, dl, k). dl) (armed (Add k g w)))"
  proof -
    have "sorted (map (\<lambda>(h, dl, k). dl) ?kept)" using ok_sorted [OF assms] by (rule sorted_filter)
    moreover have "\<forall>x\<in>set ?kept. (case x of (h, dl, k) \<Rightarrow> dl) \<le> now w + d"
    proof
      fix x assume xm: "x \<in> set ?kept"
      obtain h dl k' where x: "x = (h, dl, k')" by (cases x)
      with xm have "(h, dl, k') \<in> set (armed w)" by simp
      from ok_armed(3) [OF assms this] x show "(case x of (h, dl, k) \<Rightarrow> dl) \<le> now w + d" by simp
    qed
    ultimately show ?thesis unfolding ar by (simp add: sorted_append)
  qed
  have c4: "\<forall>(h, dl, k')\<in>set (armed (Add k g w)).
              h < nextTimer (Add k g w) \<and> now (Add k g w) \<le> dl \<and> dl \<le> now (Add k g w) + d
              \<and> timers (debouncer (Add k g w)) k' = Some h
              \<and> pending (debouncer (Add k g w)) k' \<noteq> None"
  proof (intro ballI)
    fix x assume xm: "x \<in> set (armed (Add k g w))"
    obtain h dl k' where x: "x = (h, dl, k')" by (cases x)
    from xm x ar consider "(h, dl, k') \<in> set ?kept" | "(h, dl, k') = ?new" by auto
    then have "h < nextTimer (Add k g w) \<and> now (Add k g w) \<le> dl \<and> dl \<le> now (Add k g w) + d
              \<and> timers (debouncer (Add k g w)) k' = Some h
              \<and> pending (debouncer (Add k g w)) k' \<noteq> None"
    proof cases
      case 1
      then have m: "(h, dl, k') \<in> set (armed w)" and ne: "k' \<noteq> k" by simp_all
      from ok_armed [OF assms m] ne show ?thesis by simp
    next
      case 2
      then show ?thesis by simp
    qed
    with x show "case x of (h, dl, k') \<Rightarrow>
              h < nextTimer (Add k g w) \<and> now (Add k g w) \<le> dl \<and> dl \<le> now (Add k g w) + d
              \<and> timers (debouncer (Add k g w)) k' = Some h
              \<and> pending (debouncer (Add k g w)) k' \<noteq> None" by simp
  qed
  have c5: "\<forall>k' h. timers (debouncer (Add k g w)) k' = Some h \<longrightarrow>
              (\<exists>dl. (h, dl, k') \<in> set (armed (Add k g w)))"
  proof (intro allI impI)
    fix k' h assume t: "timers (debouncer (Add k g w)) k' = Some h"
    show "\<exists>dl. (h, dl, k') \<in> set (armed (Add k g w))"
    proof (cases "k' = k")
      case True
      with t have "h = nextTimer w" by simp
      with True ar show ?thesis by auto
    next
      case False
      with t have "timers (debouncer w) k' = Some h" by simp
      from ok_timer [OF assms this] obtain dl where "(h, dl, k') \<in> set (armed w)" by blast
      with False have "(h, dl, k') \<in> set ?kept" by simp
      then show ?thesis unfolding ar by auto
    qed
  qed
  from c1 c2 c3 c4 c5 show ?thesis unfolding timersOk_def by blast
qed

lemma find_filter:
  "(\<And>x. P x \<Longrightarrow> Q x) \<Longrightarrow> find P (filter Q xs) = find P xs"
  by (induction xs) auto

lemma find_snoc_other: "\<not> P y \<Longrightarrow> find P (xs @ [y]) = find P xs"
  by (induction xs) auto

lemma inflight_Add_other:
  assumes "timersOk d w" "k' \<noteq> k"
  shows "inflight k' (Add k g w) = inflight k' w"
proof -
  have "find (\<lambda>(h, dl, ky). ky = k')
          (filter (\<lambda>(h, dl, ky). ky \<noteq> k) (armed w) @ [(nextTimer w, now w + d, k)])
        = find (\<lambda>(h, dl, ky). ky = k') (filter (\<lambda>(h, dl, ky). ky \<noteq> k) (armed w))"
    using assms(2) by (intro find_snoc_other) simp
  also have "\<dots> = find (\<lambda>(h, dl, ky). ky = k') (armed w)"
    using assms(2) by (intro find_filter) auto
  finally show ?thesis
    using assms(2) unfolding inflight_def Add_armed [OF assms(1)]
    by (simp split: option.splits prod.splits)
qed


lemma executedFor_Add [simp]: "executedFor k' (Add k g w) = executedFor k' w"
  by (simp add: executedFor_def)

lemma fire_head:
  assumes "timersOk d w" "armed w = (h, dl, k) # rest"
  obtains f where "pending (debouncer w) k = Some f"
    "fire (h, dl, k) w =
       w\<lparr>now := dl, armed := rest,
         debouncer := (debouncer w)\<lparr>pending := (pending (debouncer w))(k := None),
                                    timers := (timers (debouncer w))(k := None)\<rparr>,
         executed := executed w @ [(dl, k, f)]\<rparr>"
proof -
  have m: "(h, dl, k) \<in> set (armed w)" using assms(2) by simp
  from ok_armed(5) [OF assms(1) m] obtain f where f: "pending (debouncer w) k = Some f" by auto
  from ok_armed(2) [OF assms(1) m] have n: "max (now w) dl = dl" by simp
  have "h \<notin> fst ` set rest" using ok_distinct [OF assms(1)] assms(2) by simp
  then have "\<forall>x\<in>set rest. (\<lambda>(h', dl', k'). h' \<noteq> h) x" by force
  then have fl: "filter (\<lambda>(h', dl', k'). h' \<noteq> h) rest = rest" by (rule filter_True)
  have "fire (h, dl, k) w =
       w\<lparr>now := dl, armed := rest,
         debouncer := (debouncer w)\<lparr>pending := (pending (debouncer w))(k := None),
                                    timers := (timers (debouncer w))(k := None)\<rparr>,
         executed := executed w @ [(dl, k, f)]\<rparr>"
    unfolding fire_def using f n fl assms(2) by (simp add: Let_def)
  with f that show ?thesis by blast
qed

lemma fire_ok:
  assumes "timersOk d w" "armed w = (h, dl, k) # rest"
  shows "timersOk d (fire (h, dl, k) w)"
proof -
  from fire_head [OF assms] obtain f where f: "pending (debouncer w) k = Some f"
    and eq: "fire (h, dl, k) w =
       w\<lparr>now := dl, armed := rest,
         debouncer := (debouncer w)\<lparr>pending := (pending (debouncer w))(k := None),
                                    timers := (timers (debouncer w))(k := None)\<rparr>,
         executed := executed w @ [(dl, k, f)]\<rparr>" by blast
  have hm: "(h, dl, k) \<in> set (armed w)" using assms(2) by simp
  have restD: "(h', dl', k') \<in> set (armed w) \<and> k' \<noteq> k \<and> dl \<le> dl'"
    if "(h', dl', k') \<in> set rest" for h' dl' k'
  proof -
    from that have m: "(h', dl', k') \<in> set (armed w)" using assms(2) by simp
    have "h \<notin> fst ` set rest" using ok_distinct [OF assms(1)] assms(2) by simp
    with that have "h' \<noteq> h" by force
    with ok_unique [OF assms(1) hm, of h' dl'] m have "k' \<noteq> k" by auto
    moreover have "dl \<le> dl'" using ok_sorted [OF assms(1)] assms(2) that by force
    ultimately show ?thesis using m by simp
  qed
  have c2: "distinct (map fst rest)" using ok_distinct [OF assms(1)] assms(2) by simp
  have c3: "sorted (map (\<lambda>(h, dl, k). dl) rest)" using ok_sorted [OF assms(1)] assms(2) by simp
  have c4: "\<forall>(h', dl', k')\<in>set rest.
              h' < nextTimer w \<and> dl \<le> dl' \<and> dl' \<le> dl + d
              \<and> ((timers (debouncer w))(k := None)) k' = Some h'
              \<and> ((pending (debouncer w))(k := None)) k' \<noteq> None"
  proof (intro ballI)
    fix x assume xm: "x \<in> set rest"
    obtain h' dl' k' where x: "x = (h', dl', k')" by (cases x)
    from restD [of h' dl' k'] xm x
    have m: "(h', dl', k') \<in> set (armed w)" and ne: "k' \<noteq> k" and le: "dl \<le> dl'" by simp_all
    from ok_armed [OF assms(1) m] ok_armed(2) [OF assms(1) hm] ne le
    have "h' < nextTimer w \<and> dl \<le> dl' \<and> dl' \<le> dl + d
              \<and> ((timers (debouncer w))(k := None)) k' = Some h'
              \<and> ((pending (debouncer w))(k := None)) k' \<noteq> None" by simp
    with x show "case x of (h', dl', k') \<Rightarrow>
              h' < nextTimer w \<and> dl \<le> dl' \<and> dl' \<le> dl + d
              \<and> ((timers (debouncer w))(k := None)) k' = Some h'
              \<and> ((pending (debouncer w))(k := None)) k' \<noteq> None" by simp
  qed
  have c5: "\<forall>k' h'. ((timers (debouncer w))(k := None)) k' = Some h' \<longrightarrow>
              (\<exists>dl'. (h', dl', k') \<in> set rest)"
  proof (intro allI impI)
    fix k' h' assume t: "((timers (debouncer w))(k := None)) k' = Some h'"
    then have ne: "k' \<noteq> k" and t': "timers (debouncer w) k' = Some h'"
      by (auto split: if_splits)
    from ok_timer [OF assms(1) t'] obtain dl' where "(h', dl', k') \<in> set (armed w)" by blast
    with assms(2) ne have "(h', dl', k') \<in> set rest" by auto
    then show "\<exists>dl'. (h', dl', k') \<in> set rest" by blast
  qed
  from c2 c3 c4 c5 ok_delay [OF assms(1)] show ?thesis
    unfolding eq timersOk_def by simp
qed

lemma fire_view:
  assumes "timersOk d w" "armed w = (h, dl, k) # rest"
  shows "armed (fire (h, dl, k) w) = rest"
    and "\<exists>f. inflight k w = Some (dl, f)
             \<and> executedFor k (fire (h, dl, k) w) = executedFor k w @ [(dl, f)]"
    and "inflight k (fire (h, dl, k) w) = None"
    and "k' \<noteq> k \<Longrightarrow> executedFor k' (fire (h, dl, k) w) = executedFor k' w"
    and "k' \<noteq> k \<Longrightarrow> inflight k' (fire (h, dl, k) w) = inflight k' w"
proof -
  from fire_head [OF assms] obtain f where f: "pending (debouncer w) k = Some f"
    and eq: "fire (h, dl, k) w =
       w\<lparr>now := dl, armed := rest,
         debouncer := (debouncer w)\<lparr>pending := (pending (debouncer w))(k := None),
                                    timers := (timers (debouncer w))(k := None)\<rparr>,
         executed := executed w @ [(dl, k, f)]\<rparr>" by blast
  have hm: "(h, dl, k) \<in> set (armed w)" using assms(2) by simp
  show "armed (fire (h, dl, k) w) = rest" unfolding eq by simp
  from inflight_armed [OF assms(1) hm] f have "inflight k w = Some (dl, f)" by simp
  moreover have "executedFor k (fire (h, dl, k) w) = executedFor k w @ [(dl, f)]"
    unfolding eq by (simp add: executedFor_def)
  ultimately show "\<exists>f. inflight k w = Some (dl, f)
             \<and> executedFor k (fire (h, dl, k) w) = executedFor k w @ [(dl, f)]" by blast
  show "inflight k (fire (h, dl, k) w) = None"
    unfolding eq inflight_def by (simp split: option.splits prod.splits)
  show "executedFor k' (fire (h, dl, k) w) = executedFor k' w" if "k' \<noteq> k"
    unfolding eq using that by (simp add: executedFor_def)
  show "inflight k' (fire (h, dl, k) w) = inflight k' w" if "k' \<noteq> k"
    unfolding eq inflight_def assms(2) using that by (simp split: option.splits prod.splits)
qed

lemma fireAll:
  assumes "timersOk d w" "armed w = xs @ ys"
  shows "timersOk d (foldl (\<lambda>w' tm. fire tm w') w xs)
       \<and> armed (foldl (\<lambda>w' tm. fire tm w') w xs) = ys
       \<and> executedFor k (foldl (\<lambda>w' tm. fire tm w') w xs)
           = executedFor k w @ (if (\<exists>h dl. (h, dl, k) \<in> set xs)
                                then (case inflight k w of Some x \<Rightarrow> [x] | None \<Rightarrow> []) else [])
       \<and> inflight k (foldl (\<lambda>w' tm. fire tm w') w xs)
           = (if (\<exists>h dl. (h, dl, k) \<in> set xs) then None else inflight k w)"
  using assms
proof (induction xs arbitrary: w)
  case Nil
  then show ?case by simp
next
  case (Cons x xs)
  obtain h dl k0 where x: "x = (h, dl, k0)" by (cases x)
  let ?w1 = "fire (h, dl, k0) w"
  have ar: "armed w = (h, dl, k0) # (xs @ ys)" using Cons.prems(2) x by simp
  have ok1: "timersOk d ?w1" using Cons.prems(1) ar by (rule fire_ok)
  have ar1: "armed ?w1 = xs @ ys" using Cons.prems(1) ar by (rule fire_view(1))
  note IH = Cons.IH [OF ok1 ar1]
  have fold: "foldl (\<lambda>w' tm. fire tm w') w (x # xs) = foldl (\<lambda>w' tm. fire tm w') ?w1 xs"
    using x by simp
  show ?case
  proof (cases "k = k0")
    case True
    from fire_view(2) [OF Cons.prems(1) ar] obtain f
      where inf: "inflight k0 w = Some (dl, f)"
        and ex: "executedFor k0 ?w1 = executedFor k0 w @ [(dl, f)]" by blast
    have none: "inflight k0 ?w1 = None" using Cons.prems(1) ar by (rule fire_view(3))
    have hit: "\<exists>h dl. (h, dl, k) \<in> set (x # xs)" using x True by auto
    from IH True inf ex none hit show ?thesis unfolding fold by (auto split: if_splits)
  next
    case False
    have ex: "executedFor k ?w1 = executedFor k w"
      using Cons.prems(1) ar False by (rule fire_view(4))
    have inf: "inflight k ?w1 = inflight k w"
      using Cons.prems(1) ar False by (rule fire_view(5))
    have hit: "(\<exists>h dl. (h, dl, k) \<in> set (x # xs)) \<longleftrightarrow> (\<exists>h dl. (h, dl, k) \<in> set xs)"
      using x False by auto
    from IH ex inf show ?thesis unfolding fold hit by simp
  qed
qed

lemma sorted_split:
  "sorted (map f xs) \<Longrightarrow>
   xs = filter (\<lambda>x. f x \<le> (t::nat)) xs @ filter (\<lambda>x. \<not> f x \<le> t) xs"
proof (induction xs)
  case Nil
  then show ?case by simp
next
  case (Cons x xs)
  show ?case
  proof (cases "f x \<le> t")
    case True
    with Cons show ?thesis by simp
  next
    case False
    with Cons.prems have "\<forall>y\<in>set xs. \<not> f y \<le> t" by force
    then have "filter (\<lambda>x. f x \<le> t) xs = []" "filter (\<lambda>x. \<not> f x \<le> t) xs = xs"
      by (simp_all add: filter_empty_conv filter_id_conv)
    with False show ?thesis by simp
  qed
qed

lemma timersOk_now:
  assumes "timersOk d w" "\<forall>(h, dl, k)\<in>set (armed w). n \<le> dl \<and> dl \<le> n + d"
  shows "timersOk d (w\<lparr>now := n\<rparr>)"
  using assms unfolding timersOk_def by auto

lemma inflight_now [simp]: "inflight k (w\<lparr>now := n\<rparr>) = inflight k w"
  by (simp add: inflight_def split: option.splits prod.splits)

lemma executedFor_now [simp]: "executedFor k (w\<lparr>now := n\<rparr>) = executedFor k w"
  by (simp add: executedFor_def)

lemma advance_view:
  assumes "timersOk d w"
  shows "timersOk d (advance t w)"
    and "now (advance t w) = max (now w) t"
    and "executedFor k (advance t w)
           = executedFor k w @ (case inflight k w of
                                  Some (dl, f) \<Rightarrow> if dl \<le> t then [(dl, f)] else []
                                | None \<Rightarrow> [])"
    and "inflight k (advance t w)
           = (case inflight k w of
                Some (dl, f) \<Rightarrow> if dl \<le> t then None else Some (dl, f)
              | None \<Rightarrow> None)"
proof -
  let ?due = "filter (\<lambda>(h, dl, k). dl \<le> t) (armed w)"
  let ?late = "filter (\<lambda>x. \<not> (case x of (h, dl, k) \<Rightarrow> dl) \<le> t) (armed w)"
  let ?w' = "foldl (\<lambda>w' tm. fire tm w') w ?due"
  have due: "?due = filter (\<lambda>x. (case x of (h, dl, k) \<Rightarrow> dl) \<le> t) (armed w)"
    by (rule filter_cong) auto
  have "sorted (map (\<lambda>(h, dl, k). dl) ?due)" using ok_sorted [OF assms] by (rule sorted_filter)
  then have srt: "sort_key (\<lambda>(h, dl, k). dl) ?due = ?due" by (rule sort_key_id_if_sorted)
  have split: "armed w = ?due @ ?late"
    unfolding due using ok_sorted [OF assms] by (rule sorted_split)
  have adv: "advance t w = ?w'\<lparr>now := max (now w) t\<rparr>"
    unfolding advance_def srt ..
  note F = fireAll [OF assms split]
  have ok': "timersOk d ?w'" and ar': "armed ?w' = ?late" using F [of k] by simp_all
  have "\<forall>(h, dl, k)\<in>set (armed ?w'). max (now w) t \<le> dl \<and> dl \<le> max (now w) t + d"
  proof (intro ballI)
    fix x assume xm: "x \<in> set (armed ?w')"
    obtain h dl k' where x: "x = (h, dl, k')" by (cases x)
    with xm ar' have m: "(h, dl, k') \<in> set (armed w)" and late: "\<not> dl \<le> t" by auto
    from ok_armed(2,3) [OF assms m] late x
    show "case x of (h, dl, k) \<Rightarrow> max (now w) t \<le> dl \<and> dl \<le> max (now w) t + d" by simp
  qed
  with ok' show "timersOk d (advance t w)" unfolding adv by (rule timersOk_now)
  show "now (advance t w) = max (now w) t" unfolding adv by simp
  have hit: "(\<exists>h dl'. (h, dl', k) \<in> set ?due) \<longleftrightarrow> dl \<le> t" if "inflight k w = Some (dl, f)" for dl f
  proof -
    from inflight_SomeD [OF assms that] obtain h where m: "(h, dl, k) \<in> set (armed w)" by blast
    show ?thesis
    proof
      assume "\<exists>h dl'. (h, dl', k) \<in> set ?due"
      then obtain h' dl' where "(h', dl', k) \<in> set (armed w)" "dl' \<le> t" by auto
      with ok_unique [OF assms m, of h' dl'] show "dl \<le> t" by simp
    next
      assume "dl \<le> t"
      with m have "(h, dl, k) \<in> set ?due" by simp
      then show "\<exists>h dl'. (h, dl', k) \<in> set ?due" by blast
    qed
  qed
  show "executedFor k (advance t w)
           = executedFor k w @ (case inflight k w of
                                  Some (dl, f) \<Rightarrow> if dl \<le> t then [(dl, f)] else []
                                | None \<Rightarrow> [])"
  proof (cases "inflight k w")
    case None
    with F [of k] show ?thesis unfolding adv by simp
  next
    case (Some x)
    obtain dl f where x: "x = (dl, f)" by (cases x)
    from hit [of dl f] Some x F [of k] show ?thesis unfolding adv by simp
  qed
  show "inflight k (advance t w)
           = (case inflight k w of
                Some (dl, f) \<Rightarrow> if dl \<le> t then None else Some (dl, f)
              | None \<Rightarrow> None)"
  proof (cases "inflight k w")
    case None
    with F [of k] show ?thesis unfolding adv by simp
  next
    case (Some x)
    obtain dl f where x: "x = (dl, f)" by (cases x)
    from hit [of dl f] Some x F [of k] show ?thesis unfolding adv by simp
  qed
qed

lemma now_advance [simp]: "now (advance t w) = max (now w) t"
  by (simp add: advance_def)




lemma callsOf_Cons:
  "callsOf k ((u, k', g) # cs) = (if k' = k then (u, g) # callsOf k cs else callsOf k cs)"
  by (simp add: callsOf_def)



lemma idle:
  assumes "timersOk d w" "inflight k w = None" "callsOf k cs = []"
  shows "executedFor k (advance T (addAt cs w)) = executedFor k w"
  using assms
proof (induction cs arbitrary: w)
  case Nil
  with advance_view(3) [OF Nil(1), of k T] show ?case by simp
next
  case (Cons x cs)
  obtain u k' g where x: "x = (u, k', g)" by (cases x)
  with Cons.prems(3) have ne: "k' \<noteq> k" and rest: "callsOf k cs = []"
    by (auto simp: callsOf_Cons split: if_splits)
  let ?w1 = "advance u w"
  let ?w2 = "Add k' g ?w1"
  have ok1: "timersOk d ?w1" using Cons.prems(1) by (rule advance_view(1))
  have ok2: "timersOk d ?w2" using ok1 by (rule Add_ok)
  have "inflight k ?w1 = None" "executedFor k ?w1 = executedFor k w"
    using advance_view(3,4) [OF Cons.prems(1), of k u] Cons.prems(2) by simp_all
  then have "inflight k ?w2 = None" "executedFor k ?w2 = executedFor k w"
    using inflight_Add_other [OF ok1, of k k' g] ne by simp_all
  with Cons.IH [OF ok2 _ rest] x show ?case by simp
qed




lemma multiple_keys_run:
  "executed (advance 100 (addAt [(0, ''key1'', ''f1''), (0, ''key2'', ''f2'')] (fresh 50)))
   = [(50, ''key1'', ''f1''), (50, ''key2'', ''f2'')]"
  by (simp add: advance_def Add_def fire_def fresh_def NewDebouncer_def Let_def)

lemma same_key_run:
  "executed (advance 150 (addAt [(0, ''k'', ''a1''), (5, ''o'', ''x''), (20, ''k'', ''a2''), (40, ''k'', ''a3'')] (fresh 100)))
   = [(105, ''o'', ''x''), (140, ''k'', ''a3'')]"
  by (simp add: advance_def Add_def fire_def fresh_def NewDebouncer_def Let_def)

section \<open>The debouncer: the claim\<close>



end
